theory Spec2Isabelle
  imports Main
begin

section \<open>The chunk codec of \<open>chunkloader.js\<close>\<close>

text \<open>
  A JavaScript string is a sequence of UTF-16 code units, and a line of the document is
  such a string. \<open>str\<close> writes a line of ASCII characters.
\<close>

type_synonym jsstring = "nat list"

type_synonym bytes = "nat list"

definition str :: "string \<Rightarrow> jsstring" where
  "str cs = map of_char cs"

definition newline :: nat where
  "newline = 0x0A"

definition high_surrogate :: "nat \<Rightarrow> bool" where
  "high_surrogate u \<longleftrightarrow> 0xD800 \<le> u \<and> u \<le> 0xDBFF"

definition low_surrogate :: "nat \<Rightarrow> bool" where
  "low_surrogate u \<longleftrightarrow> 0xDC00 \<le> u \<and> u \<le> 0xDFFF"

definition scalar_value :: "nat \<Rightarrow> bool" where
  "scalar_value v \<longleftrightarrow> v < 0x110000 \<and> \<not> high_surrogate v \<and> \<not> low_surrogate v"

text \<open>
  \<open>compressChunk\<close> joins the lines of a chunk with a single newline, encodes the text
  with \<open>textEncoder.encode\<close> and drains the bytes through a
  \<open>CompressionStream('gzip')\<close>; \<open>decompressChunk\<close> runs the stored bytes through a
  \<open>DecompressionStream('gzip')\<close>, decodes them with \<open>textDecoder.decode\<close> and splits the
  text on the newline. Encoder and decoder are the platform's, and what they do to a text
  is part of the model:
  \<^item> the encoder first turns the code units into Unicode scalar values, a surrogate pair
    into one value and an unpaired surrogate into U+FFFD (\<open>to_scalars\<close>);
  \<^item> the decoder, made by \<open>new TextDecoder()\<close> with no option, drops a byte-order mark
    U+FEFF at the start of what it decodes (\<open>strip_bom\<close>) and gives the scalar values
    back as code units (\<open>from_scalars\<close>).
  What lies between the two, the UTF-8 bytes of the scalar values and their gzip
  compression, is a parameter of the model: \<open>pack\<close> is UTF-8 encoding followed by
  gzip, \<open>unpack\<close> is gunzip followed by UTF-8 decoding. Both stages are exact on every
  sequence of scalar values, which is what \<open>lossless\<close> says of a codec.
\<close>

fun to_scalars :: "jsstring \<Rightarrow> nat list" where
  "to_scalars [] = []"
| "to_scalars [u] = [if high_surrogate u \<or> low_surrogate u then 0xFFFD else u]"
| "to_scalars (u # v # rest) =
     (if high_surrogate u \<and> low_surrogate v
      then (0x10000 + (u - 0xD800) * 0x400 + (v - 0xDC00)) # to_scalars rest
      else (if high_surrogate u \<or> low_surrogate u then 0xFFFD else u) # to_scalars (v # rest))"

fun from_scalars :: "nat list \<Rightarrow> jsstring" where
  "from_scalars [] = []"
| "from_scalars (v # vs) =
     (if v < 0x10000 then v # from_scalars vs
      else (0xD800 + (v - 0x10000) div 0x400) # (0xDC00 + (v - 0x10000) mod 0x400)
           # from_scalars vs)"

definition strip_bom :: "nat list \<Rightarrow> nat list" where
  "strip_bom vs = (case vs of [] \<Rightarrow> [] | v # rest \<Rightarrow> if v = 0xFEFF then rest else vs)"

record codec =
  pack :: "nat list \<Rightarrow> bytes"
  unpack :: "bytes \<Rightarrow> nat list"

definition lossless :: "codec \<Rightarrow> bool" where
  "lossless c \<longleftrightarrow> (\<forall>t. list_all scalar_value t \<longrightarrow> unpack c (pack c t) = t)"

text \<open>A concrete codec for evaluation: the scalar values are stored as they are.\<close>

definition plain :: codec where
  "plain = \<lparr>pack = (\<lambda>t. t), unpack = (\<lambda>b. b)\<rparr>"

text \<open>\<open>lines.join('\n')\<close>\<close>

fun join_lines :: "jsstring list \<Rightarrow> jsstring" where
  "join_lines [] = []"
| "join_lines [l] = l"
| "join_lines (l # m # ls) = l @ newline # join_lines (m # ls)"

text \<open>\<open>text.split('\n')\<close>: one piece more than there are separators, so the empty text
  splits into one empty piece.\<close>

fun split_lines :: "jsstring \<Rightarrow> jsstring list" where
  "split_lines [] = [[]]"
| "split_lines (ch # rest) =
     (if ch = newline then [] # split_lines rest
      else (case split_lines rest of
              [] \<Rightarrow> [[ch]]
            | piece # pieces \<Rightarrow> (ch # piece) # pieces))"

text \<open>The byte buffer \<open>compressChunk\<close> builds from its \<open>lines\<close> argument.\<close>

definition compress :: "codec \<Rightarrow> jsstring list \<Rightarrow> bytes" where
  "compress c ls = pack c (to_scalars (join_lines ls))"

text \<open>The lines \<open>decompressChunk\<close> returns for a stored buffer.\<close>

definition decompress :: "codec \<Rightarrow> bytes \<Rightarrow> jsstring list" where
  "decompress c b = split_lines (from_scalars (strip_bom (unpack c b)))"

text \<open>
  A text is well formed when every code unit is below \<open>0x10000\<close> and every surrogate is
  half of a pair, a high one followed by a low one.
\<close>

fun well_formed :: "jsstring \<Rightarrow> bool" where
  "well_formed [] = True"
| "well_formed [u] = (u < 0x10000 \<and> \<not> high_surrogate u \<and> \<not> low_surrogate u)"
| "well_formed (u # v # rest) =
     (if high_surrogate u then low_surrogate v \<and> well_formed rest
      else u < 0x10000 \<and> \<not> low_surrogate u \<and> well_formed (v # rest))"

definition starts_with_bom :: "jsstring \<Rightarrow> bool" where
  "starts_with_bom us = (case us of [] \<Rightarrow> False | u # _ \<Rightarrow> u = 0xFEFF)"

section \<open>Session state\<close>

datatype error =
    TypeError
  | ViewportError nat nat
  | NotActivatedError

text \<open>
  \<open>loadChunks\<close> is an \<open>async\<close> function with three suspension points, one for each
  \<open>await decompressChunk(...)\<close>. A suspended invocation is a \<open>task\<close>: the chunk index
  its closure captured, the buffer its pending \<open>await\<close> will assign, and what the awaited
  \<open>decompressChunk\<close> delivers. \<open>decompressChunk\<close> reads \<open>chunks[chunkIndex]\<close> before its
  first \<open>await\<close>, so what it delivers is fixed when it is called.
\<close>

datatype stage = LoadCurrent | LoadPrevious | LoadNext

record task =
  target :: nat
  awaiting :: stage
  outcome :: "error + jsstring list"

text \<open>
  The closure variables of \<open>VbufChunkLoader\<close>, with two additions: \<open>pending\<close>, the
  suspended \<open>loadChunks\<close> invocations in the order they were started, and \<open>renders\<close>,
  the number of calls made to the viewer's \<open>render\<close> (the viewer is not part of
  \<open>chunkloader.js\<close>; its repaint asks for \<open>Viewport.lines\<close> again, which is a further
  \<open>getChunkedLines\<close> step here). \<open>chunkSize\<close> is a positive integer in every session:
  it starts as 50000 and \<open>activate\<close> accepts a size only above the viewport's.
\<close>

record session =
  enabled :: bool
  chunks :: "bytes list"
  chunkSize :: nat
  totalLines :: nat
  buffer :: "jsstring list"
  currentChunkIndex :: int
  prevBuffer :: "jsstring list"
  nextBuffer :: "jsstring list"
  pending :: "task list"
  renders :: nat

definition initial :: session where
  "initial = \<lparr>enabled = False, chunks = [], chunkSize = 50000, totalLines = 0,
     buffer = [], currentChunkIndex = - 1, prevBuffer = [], nextBuffer = [],
     pending = [], renders = 0\<rparr>"

definition render :: "session \<Rightarrow> session" where
  "render s = s\<lparr>renders := renders s + 1\<rparr>"

section \<open>The chunk store\<close>

text \<open>
  \<open>compressChunk(chunkIndex, lines)\<close>: the new buffer replaces the chunk at
  \<open>chunkIndex\<close> when there is one and is pushed at the end otherwise, whatever the index.
\<close>

definition compressChunk :: "codec \<Rightarrow> nat \<Rightarrow> jsstring list \<Rightarrow> session \<Rightarrow> session" where
  "compressChunk c chunkIndex ls s =
     (let result = compress c ls in
      if chunkIndex < length (chunks s)
      then s\<lparr>chunks := (chunks s)[chunkIndex := result]\<rparr>
      else s\<lparr>chunks := chunks s @ [result]\<rparr>)"

text \<open>
  \<open>decompressChunk(chunkIndex)\<close>: outside the array \<open>chunks[chunkIndex]\<close> is
  \<open>undefined\<close>, which the function enqueues as it is; a \<open>DecompressionStream\<close>
  rejects a chunk that is not a byte buffer with a \<open>TypeError\<close>, so the read fails and
  the returned promise is rejected.
\<close>

definition decompressChunk :: "codec \<Rightarrow> session \<Rightarrow> int \<Rightarrow> error + jsstring list" where
  "decompressChunk c s chunkIndex =
     (if 0 \<le> chunkIndex \<and> chunkIndex < int (length (chunks s))
      then Inr (decompress c (chunks s ! nat chunkIndex))
      else Inl TypeError)"

section \<open>The window: \<open>getChunkedLines\<close> and its reload\<close>

text \<open>
  The hosting viewport belongs to the viewer, which is not part of \<open>chunkloader.js\<close>:
  \<open>Viewport.start\<close>, \<open>Viewport.size\<close> and \<open>Viewport.end\<close> are the three values
  \<open>getChunkedLines\<close> reads, taken as they come (\<open>vp_end\<close> may be \<open>- 1\<close> for an
  empty range).
\<close>

record viewport =
  vp_start :: nat
  vp_size :: nat
  vp_end :: int

text \<open>\<open>xs[i] || ''\<close>: a missing element and an empty line both give the empty line.\<close>

definition or_empty :: "jsstring list \<Rightarrow> nat \<Rightarrow> jsstring" where
  "or_empty xs i = (if i < length xs then xs ! i else [])"

text \<open>The body of the loop that builds the result of a cache hit, for the absolute line \<open>i\<close>.\<close>

definition lineAt :: "session \<Rightarrow> nat \<Rightarrow> nat \<Rightarrow> jsstring" where
  "lineAt s startChunkIndex i =
     (let chunkIdx = i div chunkSize s;
          lineInChunk = i mod chunkSize s in
      if int chunkIdx = int startChunkIndex - 1 \<and> length (prevBuffer s) > 0
        then or_empty (prevBuffer s) lineInChunk
      else if chunkIdx = startChunkIndex
        then or_empty (buffer s) lineInChunk
      else if chunkIdx = startChunkIndex + 1 \<and> length (nextBuffer s) > 0
        then or_empty (nextBuffer s) lineInChunk
      else [])"

text \<open>\<open>for (let i = Viewport.start; i <= Viewport.end; i++) result.push(...)\<close>\<close>

definition hitLines :: "session \<Rightarrow> viewport \<Rightarrow> nat \<Rightarrow> jsstring list" where
  "hitLines s vp startChunkIndex =
     map (lineAt s startChunkIndex) [vp_start vp ..< nat (vp_end vp + 1)]"

text \<open>
  \<open>loadChunks\<close> up to its first \<open>await\<close>, which is what the call \<open>loadChunks()\<close> runs
  before \<open>getChunkedLines\<close> returns: the index is set and the requested chunk's
  decompression is started, with no test of the index against the store.
\<close>

definition loadChunks :: "codec \<Rightarrow> nat \<Rightarrow> session \<Rightarrow> session" where
  "loadChunks c startChunkIndex s =
     (let s1 = s\<lparr>currentChunkIndex := int startChunkIndex\<rparr> in
      s1\<lparr>pending := pending s1 @
        [\<lparr>target = startChunkIndex, awaiting = LoadCurrent,
          outcome = decompressChunk c s1 (int startChunkIndex)\<rparr>]\<rparr>)"

text \<open>The rest of \<open>loadChunks\<close> from "Load next chunk if it exists" on.\<close>

definition loadNext :: "codec \<Rightarrow> nat \<Rightarrow> session \<Rightarrow> session \<times> task option" where
  "loadNext c startChunkIndex s =
     (let nextChunkIndex = startChunkIndex + 1 in
      if nextChunkIndex < length (chunks s)
      then (s, Some \<lparr>target = startChunkIndex, awaiting = LoadNext,
                     outcome = decompressChunk c s (int nextChunkIndex)\<rparr>)
      else (render (s\<lparr>nextBuffer := []\<rparr>), None))"

text \<open>The rest of \<open>loadChunks\<close> from "Load previous chunk if it exists" on.\<close>

definition loadPrevious :: "codec \<Rightarrow> nat \<Rightarrow> session \<Rightarrow> session \<times> task option" where
  "loadPrevious c startChunkIndex s =
     (let prevChunkIndex = int startChunkIndex - 1 in
      if prevChunkIndex \<ge> 0 \<and> prevChunkIndex < int (length (chunks s))
      then (s, Some \<lparr>target = startChunkIndex, awaiting = LoadPrevious,
                     outcome = decompressChunk c s prevChunkIndex\<rparr>)
      else loadNext c startChunkIndex (s\<lparr>prevBuffer := []\<rparr>))"

text \<open>
  A suspended \<open>loadChunks\<close> is resumed when its awaited promise settles. A rejection ends
  the invocation there (nothing catches it, and nothing after the \<open>await\<close> runs); a
  result is assigned to the buffer the \<open>await\<close> stands for, with no look at
  \<open>currentChunkIndex\<close>, and the function runs on to its next \<open>await\<close> or to its end.
\<close>

definition resume :: "codec \<Rightarrow> task \<Rightarrow> session \<Rightarrow> session \<times> task option" where
  "resume c t s =
     (case outcome t of
        Inl e \<Rightarrow> (s, None)
      | Inr ls \<Rightarrow>
          (case awaiting t of
             LoadCurrent \<Rightarrow> loadPrevious c (target t) (s\<lparr>buffer := ls\<rparr>)
           | LoadPrevious \<Rightarrow> loadNext c (target t) (s\<lparr>prevBuffer := ls\<rparr>)
           | LoadNext \<Rightarrow> (render (s\<lparr>nextBuffer := ls\<rparr>), None)))"

text \<open>One step of the event loop: the \<open>k\<close>-th suspended reload is resumed.\<close>

definition land :: "codec \<Rightarrow> nat \<Rightarrow> session \<Rightarrow> session" where
  "land c k s =
     (if k < length (pending s) then
        (case resume c (pending s ! k) s of
           (s', None) \<Rightarrow> s'\<lparr>pending := take k (pending s') @ drop (Suc k) (pending s')\<rparr>
         | (s', Some t) \<Rightarrow> s'\<lparr>pending := (pending s')[k := t]\<rparr>)
      else s)"

text \<open>The \<open>k\<close>-th suspended reload runs through all the steps it has left (three at most).\<close>

definition finish :: "codec \<Rightarrow> nat \<Rightarrow> session \<Rightarrow> session" where
  "finish c k s =
     (let n = length (pending s);
          s1 = land c k s in
      if length (pending s1) < n then s1
      else let s2 = land c k s1 in
        if length (pending s2) < n then s2 else land c k s2)"

text \<open>
  \<open>getChunkedLines\<close>, the getter installed as \<open>Viewport.lines\<close>: the lines returned and
  the session after the call.
\<close>

definition getChunkedLines :: "codec \<Rightarrow> viewport \<Rightarrow> session \<Rightarrow> jsstring list \<times> session" where
  "getChunkedLines c vp s =
     (let startChunkIndex = vp_start vp div chunkSize s in
      if currentChunkIndex s \<noteq> int startChunkIndex
      then (replicate (vp_size vp) (str ''...''), loadChunks c startChunkIndex s)
      else (hitLines s vp startChunkIndex, s))"

text \<open>The three resident buffers, and the three a reload of chunk \<open>x\<close> is meant to leave.\<close>

definition window :: "session \<Rightarrow> jsstring list \<times> jsstring list \<times> jsstring list" where
  "window s = (prevBuffer s, buffer s, nextBuffer s)"

definition linesOfChunk :: "codec \<Rightarrow> session \<Rightarrow> int \<Rightarrow> jsstring list" where
  "linesOfChunk c s i =
     (if 0 \<le> i \<and> i < int (length (chunks s)) then decompress c (chunks s ! nat i) else [])"

definition windowOf :: "codec \<Rightarrow> session \<Rightarrow> nat \<Rightarrow> jsstring list \<times> jsstring list \<times> jsstring list" where
  "windowOf c s x =
     (linesOfChunk c s (int x - 1), linesOfChunk c s (int x), linesOfChunk c s (int x + 1))"

section \<open>Ingestion: \<open>appendChunkedLines\<close>\<close>

text \<open>\<open>xs.slice(0, e)\<close> and \<open>xs.slice(b)\<close>; a negative index counts from the end.\<close>

definition slice_to :: "'a list \<Rightarrow> int \<Rightarrow> 'a list" where
  "slice_to xs e = (if e < 0 then take (nat (int (length xs) + e)) xs else take (nat e) xs)"

definition slice_from :: "'a list \<Rightarrow> int \<Rightarrow> 'a list" where
  "slice_from xs b = (if b < 0 then drop (nat (int (length xs) + b)) xs else drop (nat b) xs)"

text \<open>
  The \<open>while\<close> loop of \<open>appendChunkedLines\<close>, on the session and the three locals
  \<open>startChunkIndex\<close>, \<open>startPosInChunk\<close> and \<open>remainingLines\<close>. \<open>None\<close> is a loop that
  never ends: with a chunk size of zero no line is ever placed. A rejected
  \<open>decompressChunk\<close> ends the call with the session as it is then.
\<close>

function appendLoop ::
  "codec \<Rightarrow> session \<Rightarrow> nat \<Rightarrow> nat \<Rightarrow> jsstring list \<Rightarrow> ((error + unit) \<times> session) option" where
  "appendLoop c s startChunkIndex startPosInChunk remainingLines =
     (if remainingLines = [] then Some (Inr (), s)
      else if chunkSize s = 0 then None
      else
        let remainingSpaceInChunk = int (chunkSize s) - int startPosInChunk in
        if int (length remainingLines) \<le> remainingSpaceInChunk then
          (case (if startChunkIndex < length (chunks s)
                 then decompressChunk c s (int startChunkIndex) else Inr []) of
             Inl e \<Rightarrow> Some (Inl e, s)
           | Inr chunkLines \<Rightarrow>
               appendLoop c
                 (compressChunk c startChunkIndex (chunkLines @ remainingLines)
                    (s\<lparr>totalLines := totalLines s + length remainingLines\<rparr>))
                 startChunkIndex startPosInChunk [])
        else
          (let linesInChunk = slice_to remainingLines remainingSpaceInChunk;
               remainingLines' = slice_from remainingLines remainingSpaceInChunk in
           case (if startChunkIndex < length (chunks s)
                 then decompressChunk c s (int startChunkIndex) else Inr []) of
             Inl e \<Rightarrow> Some (Inl e, s)
           | Inr chunkLines \<Rightarrow>
               appendLoop c
                 (compressChunk c startChunkIndex (chunkLines @ linesInChunk)
                    (s\<lparr>totalLines := totalLines s + length linesInChunk\<rparr>))
                 (startChunkIndex + 1) 0 remainingLines'))"
  by pat_completeness auto
termination
  by (relation "measure (\<lambda>(c, s, i, p, r). 2 * length r + (if chunkSize s \<le> p then 1 else 0))")
    (auto simp: compressChunk_def Let_def slice_from_def split: if_splits)

declare appendLoop.simps [simp del]

text \<open>
  \<open>appendChunkedLines(newLines, skipRender)\<close>. The call is one step of the model: an
  ingestion runs to its end before the next operation on the session.
\<close>

definition appendChunkedLines ::
  "codec \<Rightarrow> jsstring list \<Rightarrow> bool \<Rightarrow> session \<Rightarrow> ((error + unit) \<times> session) option" where
  "appendChunkedLines c newLines skipRender s =
     (let startChunkIndex = totalLines s div chunkSize s;
          startPosInChunk = totalLines s mod chunkSize s in
      case
        (if int startChunkIndex = currentChunkIndex s then
           (let remainingSpace = int (chunkSize s) - int (length (buffer s));
                linesToCurrentChunk = slice_to newLines remainingSpace in
            (s\<lparr>buffer := buffer s @ linesToCurrentChunk,
               totalLines := totalLines s + length linesToCurrentChunk\<rparr>,
             startChunkIndex + 1, 0, slice_from newLines remainingSpace))
         else (s, startChunkIndex, startPosInChunk, newLines))
      of (s1, startChunkIndex', startPosInChunk', remainingLines) \<Rightarrow>
        (case appendLoop c s1 startChunkIndex' startPosInChunk' remainingLines of
           None \<Rightarrow> None
         | Some (Inl e, s2) \<Rightarrow> Some (Inl e, s2)
         | Some (Inr u, s2) \<Rightarrow> Some (Inr (), if skipRender then s2 else render s2)))"

section \<open>Lifecycle: the \<open>ChunkLoader\<close> object\<close>

text \<open>
  What \<open>activate\<close> and \<open>deactivate\<close> change in the viewer: the edit mode, the lines of
  the in-memory model, and which implementation stands behind \<open>Model.lastIndex\<close>,
  \<open>Viewport.lines\<close> and \<open>Model.appendLines\<close>.
\<close>

datatype source = Original | Chunked

record vbuf =
  viewport :: viewport
  editMode :: string
  modelLines :: "jsstring list"
  lastIndexGetter :: source
  linesGetter :: source
  appendLinesImpl :: source

definition chunkCount :: "session \<Rightarrow> nat" where
  "chunkCount s = length (chunks s)"

definition compressedSize :: "session \<Rightarrow> nat" where
  "compressedSize s = sum_list (map length (chunks s))"

definition activate :: "nat \<Rightarrow> vbuf \<times> session \<Rightarrow> (error + unit) \<times> vbuf \<times> session" where
  "activate sz w =
     (case w of (v, s) \<Rightarrow>
        if vp_size (viewport v) \<ge> sz
        then (Inl (ViewportError (vp_size (viewport v)) sz), (v, s))
        else
          (Inr (),
           (v\<lparr>modelLines := [], editMode := ''navigate'', lastIndexGetter := Chunked,
              linesGetter := Chunked, appendLinesImpl := Chunked\<rparr>,
            render (s\<lparr>enabled := True, chunkSize := sz, chunks := [], buffer := [],
              totalLines := 0, currentChunkIndex := - 1, prevBuffer := [],
              nextBuffer := []\<rparr>))))"

definition deactivate :: "vbuf \<times> session \<Rightarrow> vbuf \<times> session" where
  "deactivate w =
     (case w of (v, s) \<Rightarrow>
        (v\<lparr>lastIndexGetter := Original, linesGetter := Original,
           appendLinesImpl := Original, editMode := ''write''\<rparr>,
         render (s\<lparr>enabled := False, chunks := [], buffer := [], totalLines := 0,
           currentChunkIndex := - 1, prevBuffer := [], nextBuffer := []\<rparr>)))"


text \<open>\<open>ChunkLoader.appendLines(lines, skipRender)\<close>\<close>

definition appendLines ::
  "codec \<Rightarrow> jsstring list \<Rightarrow> bool \<Rightarrow> session \<Rightarrow> ((error + unit) \<times> session) option" where
  "appendLines c ls skipRender s =
     (if \<not> enabled s then Some (Inl NotActivatedError, s)
      else appendChunkedLines c ls skipRender s)"

section \<open>Landing orders of the reloads in flight\<close>

text \<open>
  The event loop resumes one suspended \<open>loadChunks\<close> at a time, in the order the awaited
  promises settle. A landing order names, step by step, the reload that is resumed next,
  by the chunk it was started for. \<open>firstFor x ts\<close> is the position of the suspended
  reload of chunk \<open>x\<close> among the suspended ones, \<open>landOf\<close> resumes it (an entry for
  a reload that has ended changes nothing), and \<open>run\<close> lets a whole order land.
\<close>

fun firstFor :: "nat \<Rightarrow> task list \<Rightarrow> nat option" where
  "firstFor x [] = None"
| "firstFor x (t # ts) = (if target t = x then Some 0 else map_option Suc (firstFor x ts))"

definition landOf :: "codec \<Rightarrow> nat \<Rightarrow> session \<Rightarrow> session" where
  "landOf c x s = (case firstFor x (pending s) of None \<Rightarrow> s | Some k \<Rightarrow> land c k s)"

fun run :: "codec \<Rightarrow> nat list \<Rightarrow> session \<Rightarrow> session" where
  "run c [] s = s"
| "run c (x # xs) s = run c xs (landOf c x s)"

text \<open>
  The steps of \<open>loadChunks(x)\<close> in a store of \<open>n\<close> chunks, one for each \<open>await\<close> it
  reaches: the requested chunk, the previous chunk when \<open>x > 0\<close>, the next chunk when
  there is one. \<open>buffer\<close> is assigned when the first step lands. \<open>prevBuffer\<close> is
  assigned when the second lands, or with the first when there is no previous chunk
  (\<open>prevBuffer = []\<close> runs on from the assignment of \<open>buffer\<close>). \<open>nextBuffer\<close> is
  assigned when the last step lands, from the next chunk or as \<open>[]\<close>.
\<close>

definition landings :: "nat \<Rightarrow> nat \<Rightarrow> nat" where
  "landings n x = 1 + (if 0 < x then 1 else 0) + (if x + 1 < n then 1 else 0)"

definition prevStep :: "nat \<Rightarrow> nat" where
  "prevStep x = (if 0 < x then 2 else 1)"

text \<open>
  The account of a landing order: for each reload the number of its steps that have
  landed, and for each of the three buffers the reload that assigned it last, if any
  has. An entry for a reload with no step left is passed over.
\<close>

record tally =
  landed :: "nat \<Rightarrow> nat"
  prevFrom :: "nat option"
  curFrom :: "nat option"
  nextFrom :: "nat option"

definition tallyStep :: "nat \<Rightarrow> tally \<Rightarrow> nat \<Rightarrow> tally" where
  "tallyStep n t x =
     (let j = landed t x + 1 in
      if landings n x < j then t
      else t\<lparr>landed := (landed t)(x := j),
             prevFrom := (if j = prevStep x then Some x else prevFrom t),
             curFrom := (if j = 1 then Some x else curFrom t),
             nextFrom := (if j = landings n x then Some x else nextFrom t)\<rparr>)"

definition tallyOf :: "nat \<Rightarrow> nat list \<Rightarrow> tally" where
  "tallyOf n xs =
     foldl (tallyStep n) \<lparr>landed = (\<lambda>x. 0), prevFrom = None, curFrom = None, nextFrom = None\<rparr> xs"

text \<open>
  The suspended \<open>loadChunks(x)\<close> after \<open>j\<close> of its steps, started on the store of
  \<open>s\<close> for an existing chunk \<open>x\<close>, and the sessions that an account \<open>t\<close> of landings
  describes: \<open>s\<close> is what the landings counted in \<open>t\<close> make of \<open>s0\<close>, the reloads of the
  chunks \<open>xs\<close> having been started in this order.
\<close>

definition stepTask :: "codec \<Rightarrow> session \<Rightarrow> nat \<Rightarrow> nat \<Rightarrow> task option" where
  "stepTask c s x j =
     (if j = 0 then
        Some \<lparr>target = x, awaiting = LoadCurrent, outcome = Inr (linesOfChunk c s (int x))\<rparr>
      else if j < landings (length (chunks s)) x then
        (if j = 1 \<and> 0 < x
         then Some \<lparr>target = x, awaiting = LoadPrevious,
                     outcome = Inr (linesOfChunk c s (int x - 1))\<rparr>
         else Some \<lparr>target = x, awaiting = LoadNext,
                     outcome = Inr (linesOfChunk c s (int x + 1))\<rparr>)
      else None)"

definition tracked :: "codec \<Rightarrow> session \<Rightarrow> nat list \<Rightarrow> tally \<Rightarrow> session \<Rightarrow> bool" where
  "tracked c s0 xs t s \<longleftrightarrow>
     chunks s = chunks s0 \<and> chunkSize s = chunkSize s0
     \<and> pending s = List.map_filter (\<lambda>y. stepTask c s0 y (landed t y)) xs
     \<and> buffer s = (case curFrom t of None \<Rightarrow> buffer s0 | Some y \<Rightarrow> linesOfChunk c s0 (int y))
     \<and> prevBuffer s
         = (case prevFrom t of None \<Rightarrow> prevBuffer s0 | Some y \<Rightarrow> linesOfChunk c s0 (int y - 1))
     \<and> nextBuffer s
         = (case nextFrom t of None \<Rightarrow> nextBuffer s0 | Some y \<Rightarrow> linesOfChunk c s0 (int y + 1))"

section \<open>The session between a cache miss and the next assignment of a buffer\<close>

text \<open>
  The sessions reached from \<open>s\<close> by a resolve that is a cache hit or by an append
  that does not take the path through the resident buffer, any number of times. The
  steps left out are the landing of a step of any reload in flight, an append through
  the resident buffer, a cache miss, and \<open>activate\<close>, \<open>deactivate\<close> and
  \<open>clear\<close>.
\<close>

inductive undisturbed :: "codec \<Rightarrow> session \<Rightarrow> session \<Rightarrow> bool" for c :: codec and s :: session where
  at_miss: "undisturbed c s s"
| resolved: "undisturbed c s s' \<Longrightarrow> currentChunkIndex s' = int (vp_start vp div chunkSize s')
    \<Longrightarrow> undisturbed c s (snd (getChunkedLines c vp s'))"
| appended: "undisturbed c s s' \<Longrightarrow> int (totalLines s' div chunkSize s') \<noteq> currentChunkIndex s'
    \<Longrightarrow> appendChunkedLines c ls skipRender s' = Some (r, s'')
    \<Longrightarrow> undisturbed c s s''"

section \<open>Predicates on the window\<close>


section \<open>Concrete sessions\<close>

text \<open>A viewer in its normal mode with a viewport of \<open>n\<close> rows at the top of the document.\<close>

definition idle_viewer :: "nat \<Rightarrow> vbuf" where
  "idle_viewer n =
     \<lparr>viewport = \<lparr>vp_start = 0, vp_size = n, vp_end = int n - 1\<rparr>, editMode = ''write'',
      modelLines = [], lastIndexGetter = Original, linesGetter = Original,
      appendLinesImpl = Original\<rparr>"

text \<open>
  Modelled from the spec: \<open>Viewport.end\<close> is a getter of the viewer, which is not part
  of \<open>chunkloader.js\<close>; the spec's viewport is a start and a line count, and a resolve
  covers the lines from \<open>start\<close> to \<open>start + size - 1\<close>.
\<close>

definition rowsFrom :: "nat \<Rightarrow> nat \<Rightarrow> viewport" where
  "rowsFrom a n = \<lparr>vp_start = a, vp_size = n, vp_end = int a + int n - 1\<rparr>"

text \<open>A session of chunk size 4 just activated, and the same after the viewer's first
  request for its lines.\<close>

definition fresh4 :: session where
  "fresh4 = snd (snd (activate 4 (idle_viewer 2, initial)))"

definition probed4 :: session where
  "probed4 = snd (getChunkedLines plain (rowsFrom 0 2) fresh4)"

text \<open>The session of chunk size 4 with two lines stored, and the same with its window
  resident on chunk 0.\<close>

definition stored_ab :: session where
  "stored_ab = fresh4\<lparr>chunks := [compress plain [str ''a'', str ''b'']], totalLines := 2\<rparr>"

definition resident_ab :: session where
  "resident_ab = render (stored_ab\<lparr>currentChunkIndex := 0, buffer := [str ''a'', str ''b'']\<rparr>)"

text \<open>A session of chunk size 2 holding five lines in three chunks, no window loaded.\<close>

definition fresh2 :: session where
  "fresh2 = snd (snd (activate 2 (idle_viewer 1, initial)))"

definition loaded :: session where
  "loaded = fresh2\<lparr>chunks := [compress plain [str ''a0'', str ''a1''], compress plain [str ''b0'', str ''b1''],
     compress plain [str ''c0'']], totalLines := 5\<rparr>"

text \<open>A session of chunk size 2 holding seven lines in four chunks, no window loaded,
  and two viewport jumps in it, to chunk 1 and then to chunk 3, with no reload step in
  between.\<close>

definition loaded4 :: session where
  "loaded4 = fresh2\<lparr>chunks := [compress plain [str ''a0'', str ''a1''], compress plain [str ''b0'', str ''b1''],
     compress plain [str ''c0'', str ''c1''], compress plain [str ''d0'']], totalLines := 7\<rparr>"

definition two_jumps :: session where
  "two_jumps =
     snd (getChunkedLines plain (rowsFrom 6 1) (snd (getChunkedLines plain (rowsFrom 2 1) loaded4)))"

text \<open>The window resident on chunk 0, and a jump to chunk 2 from there.\<close>

definition resident0 :: session where
  "resident0 = finish plain 0 (snd (getChunkedLines plain (rowsFrom 0 1) loaded))"

definition jumped :: session where
  "jumped = snd (getChunkedLines plain (rowsFrom 4 1) resident0)"

text \<open>A jump from the window on chunk 0 to line 10, past the store of three chunks, and
  the same once the rejected read of chunk 5 has landed.\<close>

definition past_store :: session where
  "past_store = snd (getChunkedLines plain (rowsFrom 10 1) resident0)"

definition strayed :: session where
  "strayed = land plain 0 past_store"

text \<open>A jump from the window on chunk 0 to chunk 1.\<close>

definition stepped :: session where
  "stepped = snd (getChunkedLines plain (rowsFrom 2 1) resident0)"

text \<open>A jump to chunk 2, the tail of the five lines, with no window loaded.\<close>

definition first_jump :: session where
  "first_jump = snd (getChunkedLines plain (rowsFrom 4 1) loaded)"

text \<open>A session of chunk size 50000 holding 50001 lines, its window resident on chunk 0.\<close>

definition boundary :: session where
  "boundary = initial\<lparr>enabled := True, currentChunkIndex := 0, totalLines := 50001,
     buffer := replicate 50000 (str ''x''), nextBuffer := [str ''y''],
     chunks := [compress plain (replicate 50000 (str ''x'')), compress plain [str ''y'']]\<rparr>"

section \<open>Evaluation of the concrete sessions\<close>

lemmas scenario_defs = idle_viewer_def rowsFrom_def fresh4_def probed4_def stored_ab_def
  resident_ab_def fresh2_def loaded_def loaded4_def two_jumps_def resident0_def jumped_def
  past_store_def strayed_def stepped_def first_jump_def initial_def plain_def str_def

lemmas step_defs = activate_def getChunkedLines_def loadChunks_def hitLines_def lineAt_def
  or_empty_def finish_def land_def resume_def loadPrevious_def loadNext_def render_def
  decompressChunk_def compressChunk_def compress_def decompress_def newline_def
  strip_bom_def high_surrogate_def low_surrogate_def
  appendChunkedLines_def appendLoop.simps slice_to_def slice_from_def chunkCount_def
  window_def windowOf_def linesOfChunk_def Let_def

lemmas tally_defs = landOf_def tallyOf_def tallyStep_def landings_def prevStep_def

section \<open>Properties of the codec\<close>

lemma lossless_plain: "lossless plain"
  by (simp add: lossless_def plain_def)

lemma div_block:
  fixes q n r :: nat
  assumes "r < n"
  shows "(q * n + r) div n = q" and "(q * n + r) mod n = r"
proof -
  have "n \<noteq> 0" using assms by simp
  then have "(q * n + r) div n = q + r div n"
    by (rule div_mult_self3)
  then show "(q * n + r) div n = q" using assms by simp
  show "(q * n + r) mod n = r" using assms by simp
qed

text \<open>A surrogate pair stands for a scalar value above the basic plane, and the decoder
  writes that value as the same pair.\<close>

lemma pair_round:
  assumes "high_surrogate u" "low_surrogate v"
  shows "\<not> 0x10000 + (u - 0xD800) * 0x400 + (v - 0xDC00) < (0x10000::nat)"
    and "0xD800 + (0x10000 + (u - 0xD800) * 0x400 + (v - 0xDC00) - 0x10000) div 0x400 = u"
    and "0xDC00 + (0x10000 + (u - 0xD800) * 0x400 + (v - 0xDC00) - 0x10000) mod 0x400 = v"
proof -
  define a b where "a = u - 0xD800" and "b = v - 0xDC00"
  have u: "u = 0xD800 + a" and v: "v = 0xDC00 + b" and b: "b < 0x400"
    using assms unfolding high_surrogate_def low_surrogate_def a_def b_def by linarith+
  have off: "0x10000 + a * 0x400 + b - 0x10000 = a * 0x400 + b"
    by simp
  show "\<not> 0x10000 + (u - 0xD800) * 0x400 + (v - 0xDC00) < (0x10000::nat)"
    by simp
  show "0xD800 + (0x10000 + (u - 0xD800) * 0x400 + (v - 0xDC00) - 0x10000) div 0x400 = u"
    unfolding a_def [symmetric] b_def [symmetric] off div_block(1) [OF b] by (simp only: u)
  show "0xDC00 + (0x10000 + (u - 0xD800) * 0x400 + (v - 0xDC00) - 0x10000) mod 0x400 = v"
    unfolding a_def [symmetric] b_def [symmetric] off div_block(2) [OF b] by (simp only: v)
qed

lemma pair_scalar:
  assumes "high_surrogate u" "low_surrogate v"
  shows "scalar_value (0x10000 + (u - 0xD800) * 0x400 + (v - 0xDC00))"
proof -
  define a b where "a = u - 0xD800" and "b = v - 0xDC00"
  have a: "a < 0x400" and b: "b < 0x400"
    using assms unfolding high_surrogate_def low_surrogate_def a_def b_def by linarith+
  have "a * 0x400 \<le> 0x3FF * 0x400"
    using a by simp
  then have "0x10000 + a * 0x400 + b < 0x110000" and "0x10000 \<le> 0x10000 + a * 0x400 + b"
    using b by simp_all
  then show ?thesis
    unfolding a_def [symmetric] b_def [symmetric] scalar_value_def high_surrogate_def
      low_surrogate_def by linarith
qed

lemma from_to_scalars: "well_formed us \<Longrightarrow> from_scalars (to_scalars us) = us"
proof (induction us rule: to_scalars.induct)
  case 1
  then show ?case by simp
next
  case (2 u)
  then show ?case by simp
next
  case (3 u v rest)
  show ?case
  proof (cases "high_surrogate u")
    case True
    with 3 show ?thesis
      by (simp only: to_scalars.simps from_scalars.simps well_formed.simps
          pair_round if_True if_False simp_thms)
  next
    case False
    with 3 show ?thesis by simp
  qed
qed

lemma to_scalars_valid: "well_formed us \<Longrightarrow> list_all scalar_value (to_scalars us)"
proof (induction us rule: to_scalars.induct)
  case 1
  then show ?case by simp
next
  case (2 u)
  then show ?case by (simp add: scalar_value_def)
next
  case (3 u v rest)
  show ?case
  proof (cases "high_surrogate u")
    case True
    with 3 show ?thesis by (simp add: pair_scalar)
  next
    case False
    with 3 show ?thesis by (simp add: scalar_value_def)
  qed
qed

lemma to_scalars_bom:
  "well_formed us \<Longrightarrow> \<not> starts_with_bom us \<Longrightarrow> strip_bom (to_scalars us) = to_scalars us"
proof (cases us rule: to_scalars.cases)
  case 1
  then show ?thesis by (simp add: strip_bom_def)
next
  case (2 u)
  assume "well_formed us" "\<not> starts_with_bom us"
  with 2 show ?thesis by (simp add: strip_bom_def starts_with_bom_def)
next
  case (3 u v rest)
  assume wf: "well_formed us" and nb: "\<not> starts_with_bom us"
  show ?thesis
  proof (cases "high_surrogate u")
    case True
    with wf 3 have low: "low_surrogate v" by simp
    from pair_round(1) [OF True low]
    have "0x10000 + (u - 0xD800) * 0x400 + (v - 0xDC00) \<noteq> 0xFEFF"
      by linarith
    with 3 True low show ?thesis by (simp add: strip_bom_def)
  next
    case False
    with wf nb 3 show ?thesis by (simp add: strip_bom_def starts_with_bom_def)
  qed
qed

lemma well_formed_append:
  "well_formed xs \<Longrightarrow> well_formed ys \<Longrightarrow> well_formed (xs @ ys)"
proof (induction xs rule: well_formed.induct)
  case 1
  then show ?case by simp
next
  case (2 u)
  then show ?case by (cases ys) simp_all
next
  case (3 u v rest)
  then show ?case by (simp split: if_splits)
qed

lemma well_formed_newline: "well_formed ys \<Longrightarrow> well_formed (newline # ys)"
  by (cases ys) (simp_all add: newline_def high_surrogate_def low_surrogate_def)

lemma well_formed_join:
  "\<forall>l\<in>set ls. well_formed l \<Longrightarrow> well_formed (join_lines ls)"
  by (induction ls rule: join_lines.induct)
    (simp_all add: well_formed_append well_formed_newline)

lemma starts_with_bom_join:
  "ls \<noteq> [] \<Longrightarrow> starts_with_bom (join_lines ls) = starts_with_bom (hd ls)"
proof (cases ls rule: join_lines.cases)
  case 1
  assume "ls \<noteq> []"
  with 1 show ?thesis by simp
next
  case (2 l)
  then show ?thesis by simp
next
  case (3 l m ms)
  then show ?thesis
    by (cases l) (simp_all add: starts_with_bom_def newline_def)
qed

lemma split_lines_single: "newline \<notin> set l \<Longrightarrow> split_lines l = [l]"
  by (induction l) auto

lemma split_lines_append:
  "newline \<notin> set l \<Longrightarrow> split_lines (l @ newline # t) = l # split_lines t"
  by (induction l) auto

lemma split_join_lines:
  "ls \<noteq> [] \<Longrightarrow> \<forall>l\<in>set ls. newline \<notin> set l \<Longrightarrow> split_lines (join_lines ls) = ls"
  by (induction ls rule: join_lines.induct) (auto simp: split_lines_single split_lines_append)

text \<open>Encoder, lossless byte stage and decoder give a text back when it is well formed
  and does not start with a byte-order mark.\<close>

lemma text_round_trip:
  assumes "lossless c" and "well_formed t" and "\<not> starts_with_bom t"
  shows "from_scalars (strip_bom (unpack c (pack c (to_scalars t)))) = t"
proof -
  have "unpack c (pack c (to_scalars t)) = to_scalars t"
    using assms(1) to_scalars_valid [OF assms(2)] by (simp add: lossless_def)
  then show ?thesis
    by (simp add: to_scalars_bom [OF assms(2,3)] from_to_scalars [OF assms(2)])
qed

lemma decompress_compress:
  assumes "lossless c" and "ls \<noteq> []" and "\<forall>l\<in>set ls. well_formed l"
    and "\<not> starts_with_bom (hd ls)"
  shows "decompress c (compress c ls) = split_lines (join_lines ls)"
  unfolding decompress_def compress_def
  using text_round_trip [OF assms(1) well_formed_join [OF assms(3)]]
    starts_with_bom_join [OF assms(2)] assms(4)
  by simp

lemma decompressChunk_compressChunk:
  "decompressChunk c (compressChunk c i ls s) (int (min i (length (chunks s))))
     = Inr (decompress c (compress c ls))"
  by (simp add: decompressChunk_def compressChunk_def Let_def min_def nth_append)

text \<open>
  C1, as stated, fails in three ways, each on newline-free lines. The empty sequence comes
  back as one empty line: \<open>[].join('\n')\<close> is the empty text and \<open>''.split('\n')\<close> is
  one empty line. A first line that starts with the byte-order mark U+FEFF comes back
  without it: the decoder drops the mark. A line holding an unpaired surrogate comes
  back with U+FFFD in its place: the encoder replaces it.
\<close>

theorem C1_round_trip_counterexample:
  "decompressChunk plain (compressChunk plain 0 [] initial) 0 = Inr [[]]
   \<and> decompress plain (compress plain []) \<noteq> []
   \<and> newline \<notin> set (0xFEFF # str ''a'') \<and> newline \<notin> set (str ''b'')
   \<and> decompress plain (compress plain [0xFEFF # str ''a'', str ''b'']) = [str ''a'', str ''b'']
   \<and> decompress plain (compress plain [0xFEFF # str ''a'', str ''b''])
       \<noteq> [0xFEFF # str ''a'', str ''b'']
   \<and> decompress plain (compress plain [[0xD800]]) = [[0xFFFD]]"
  by (simp add: decompressChunk_def compressChunk_def decompress_def compress_def
      plain_def initial_def strip_bom_def str_def newline_def high_surrogate_def
      low_surrogate_def)

text \<open>
  C1, amended: for every non-empty finite sequence of lines, each without an embedded
  newline and well formed (no unpaired surrogate) and the first not starting with the
  byte-order mark U+FEFF, decompressing the compressed sequence gives the sequence back,
  as a pure round trip and through the store (\<open>compressChunk\<close> at an index, then
  \<open>decompressChunk\<close> at the position the chunk was written to). The byte stage between
  encoder and decoder, UTF-8 and gzip, is exact on scalar values.
\<close>

theorem C1_round_trip_well_formed:
  assumes "lossless c" and "ls \<noteq> []"
    and "\<forall>l\<in>set ls. newline \<notin> set l \<and> well_formed l"
    and "\<not> starts_with_bom (hd ls)"
  shows "decompress c (compress c ls) = ls
    \<and> decompressChunk c (compressChunk c i ls s) (int (min i (length (chunks s)))) = Inr ls"
proof -
  have wf: "\<forall>l\<in>set ls. well_formed l" and nl: "\<forall>l\<in>set ls. newline \<notin> set l"
    using assms(3) by simp_all
  have "decompress c (compress c ls) = ls"
    using decompress_compress [OF assms(1,2) wf assms(4)] split_join_lines [OF assms(2) nl]
    by simp
  then show ?thesis
    by (simp add: decompressChunk_compressChunk)
qed

text \<open>C1, amended, on three lines: one with a character outside the basic plane (a
  surrogate pair), an empty one, and one with a byte-order mark that is not at the start
  of the text.\<close>

theorem C1_round_trip_well_formed_witness:
  "lossless plain
   \<and> [str ''ab'' @ [0xD83D, 0xDE00], [], 0xFEFF # str ''c''] \<noteq> []
   \<and> newline \<notin> set (concat [str ''ab'' @ [0xD83D, 0xDE00], [], 0xFEFF # str ''c''])
   \<and> well_formed (str ''ab'' @ [0xD83D, 0xDE00]) \<and> well_formed []
   \<and> well_formed (0xFEFF # str ''c'')
   \<and> \<not> starts_with_bom (hd [str ''ab'' @ [0xD83D, 0xDE00], [], 0xFEFF # str ''c''])
   \<and> decompress plain (compress plain [str ''ab'' @ [0xD83D, 0xDE00], [], 0xFEFF # str ''c''])
       = [str ''ab'' @ [0xD83D, 0xDE00], [], 0xFEFF # str ''c'']
   \<and> decompressChunk plain
        (compressChunk plain 0 [str ''ab'' @ [0xD83D, 0xDE00], [], 0xFEFF # str ''c''] initial)
        (int (min 0 (length (chunks initial))))
       = Inr [str ''ab'' @ [0xD83D, 0xDE00], [], 0xFEFF # str ''c'']"
proof -
  let ?ls = "[str ''ab'' @ [0xD83D, 0xDE00], [], 0xFEFF # str ''c'']"
  have h1: "lossless plain" by (rule lossless_plain)
  have h2: "?ls \<noteq> []" by simp
  have wf: "well_formed (str ''ab'' @ [0xD83D, 0xDE00])" "well_formed []"
    "well_formed (0xFEFF # str ''c'')"
    by (simp_all add: str_def high_surrogate_def low_surrogate_def)
  have nl: "newline \<notin> set (concat ?ls)"
    by (simp add: str_def newline_def)
  have h3: "\<forall>l\<in>set ?ls. newline \<notin> set l \<and> well_formed l"
    using wf nl by simp
  have h4: "\<not> starts_with_bom (hd ?ls)"
    by (simp add: str_def starts_with_bom_def)
  show ?thesis
    using h1 wf nl h4 C1_round_trip_well_formed [OF h1 h2 h3 h4, where i = 0 and s = initial]
    by simp
qed

section \<open>Properties of \<open>getChunkedLines\<close>\<close>





text \<open>
  C6, as stated, fails: with chunk size 50000 and the window resident on chunk 0, the
  resolve of the lines 49990 to 50000 is a cache hit, since the viewport starts in
  chunk 0. The index stays 0, no reload is started and the session is unchanged.
\<close>

theorem C6_no_transition_counterexample:
  "chunkSize boundary = 50000 \<and> currentChunkIndex boundary = 0
   \<and> getChunkedLines plain \<lparr>vp_start = 49990, vp_size = 11, vp_end = 50000\<rparr> boundary
       = ([str ''x'', str ''x'', str ''x'', str ''x'', str ''x'', str ''x'', str ''x'', str ''x'', str ''x'', str ''x'', str ''y''], boundary)
   \<and> currentChunkIndex (snd (getChunkedLines plain
         \<lparr>vp_start = 49990, vp_size = 11, vp_end = 50000\<rparr> boundary)) \<noteq> 1
   \<and> pending (snd (getChunkedLines plain
         \<lparr>vp_start = 49990, vp_size = 11, vp_end = 50000\<rparr> boundary)) = []"
  by (simp add: boundary_def initial_def getChunkedLines_def hitLines_def lineAt_def or_empty_def
      Let_def)

text \<open>
  C6, amended: with chunk size 50000 and the window resident on chunk 0, resolving the
  lines 49990 to 50000 is a cache hit. The session, its chunk index included, is
  unchanged and no reload is started; eleven strings are returned, and the one for the
  absolute line 50000 is the first line of the next buffer (the copy of chunk 1 loaded
  along with chunk 0), or the empty string when that buffer is empty.
\<close>

theorem C6_boundary_is_cache_hit:
  assumes "chunkSize s = 50000" and "currentChunkIndex s = 0"
    and "vp_start vp = 49990" and "vp_end vp = 50000"
  shows "snd (getChunkedLines c vp s) = s
       \<and> length (fst (getChunkedLines c vp s)) = 11
       \<and> fst (getChunkedLines c vp s) ! 10 = or_empty (nextBuffer s) 0"
proof -
  have hit: "getChunkedLines c vp s = (hitLines s vp 0, s)"
    using assms by (simp add: getChunkedLines_def Let_def)
  have len: "length (hitLines s vp 0) = 11"
    using assms by (simp add: hitLines_def)
  have "hitLines s vp 0 ! 10 = lineAt s 0 50000"
    using assms by (simp add: hitLines_def)
  also have "\<dots> = or_empty (nextBuffer s) 0"
    using assms by (simp add: lineAt_def Let_def or_empty_def)
  finally show ?thesis using hit len by simp
qed

text \<open>C6, amended, on the session of 50001 lines.\<close>

theorem C6_boundary_is_cache_hit_witness:
  "chunkSize boundary = 50000 \<and> currentChunkIndex boundary = 0
   \<and> snd (getChunkedLines plain \<lparr>vp_start = 49990, vp_size = 11, vp_end = 50000\<rparr> boundary)
       = boundary
   \<and> length (fst (getChunkedLines plain
         \<lparr>vp_start = 49990, vp_size = 11, vp_end = 50000\<rparr> boundary)) = 11
   \<and> fst (getChunkedLines plain \<lparr>vp_start = 49990, vp_size = 11, vp_end = 50000\<rparr> boundary) ! 10
       = str ''y''"
proof -
  have h1: "chunkSize boundary = 50000" and h2: "currentChunkIndex boundary = 0"
    by (simp_all add: boundary_def initial_def)
  have h3: "vp_start \<lparr>vp_start = 49990, vp_size = 11, vp_end = 50000\<rparr> = 49990"
    and h4: "vp_end \<lparr>vp_start = 49990, vp_size = 11, vp_end = 50000\<rparr> = 50000"
    by simp_all
  have "or_empty (nextBuffer boundary) 0 = str ''y''"
    by (simp add: boundary_def or_empty_def)
  then show ?thesis
    using h1 h2 C6_boundary_is_cache_hit [OF h1 h2 h3 h4, where c = plain] by simp
qed

section \<open>Properties of the reload\<close>

lemmas reload_defs = land_def resume_def loadPrevious_def loadNext_def render_def Let_def
  decompressChunk_def

lemma nat_one_plus: "nat (1 + int x) = Suc x"
  by simp

lemma land_next:
  assumes "k < length (pending s)"
    and "pending s ! k = \<lparr>target = x, awaiting = LoadNext, outcome = Inr ls\<rparr>"
  shows "land c k s =
     render (s\<lparr>nextBuffer := ls, pending := take k (pending s) @ drop (Suc k) (pending s)\<rparr>)"
  using assms by (simp add: reload_defs)

lemma land_previous:
  assumes "k < length (pending s)"
    and "pending s ! k = \<lparr>target = x, awaiting = LoadPrevious, outcome = Inr ls\<rparr>"
  shows "land c k s =
     (if Suc x < length (chunks s)
      then s\<lparr>prevBuffer := ls,
             pending := (pending s)[k := \<lparr>target = x, awaiting = LoadNext,
               outcome = Inr (decompress c (chunks s ! Suc x))\<rparr>]\<rparr>
      else render (s\<lparr>prevBuffer := ls, nextBuffer := [],
             pending := take k (pending s) @ drop (Suc k) (pending s)\<rparr>))"
  using assms by (simp add: reload_defs nat_one_plus)

lemma land_current:
  assumes "k < length (pending s)"
    and "pending s ! k = \<lparr>target = x, awaiting = LoadCurrent, outcome = Inr ls\<rparr>"
  shows "land c k s =
     (if 0 < x \<and> x - 1 < length (chunks s)
      then s\<lparr>buffer := ls,
             pending := (pending s)[k := \<lparr>target = x, awaiting = LoadPrevious,
               outcome = Inr (decompress c (chunks s ! (x - 1)))\<rparr>]\<rparr>
      else if Suc x < length (chunks s)
      then s\<lparr>buffer := ls, prevBuffer := [],
             pending := (pending s)[k := \<lparr>target = x, awaiting = LoadNext,
               outcome = Inr (decompress c (chunks s ! Suc x))\<rparr>]\<rparr>
      else render (s\<lparr>buffer := ls, prevBuffer := [], nextBuffer := [],
             pending := take k (pending s) @ drop (Suc k) (pending s)\<rparr>))"
proof -
  have "nat (int x - 1) = x - 1" by simp
  moreover have "(0 \<le> int x - 1 \<and> int x - 1 < int (length (chunks s)))
      = (0 < x \<and> x - 1 < length (chunks s))"
    by auto
  ultimately show ?thesis
    using assms by (simp add: reload_defs nat_one_plus)
qed

lemma land_rejected:
  assumes "k < length (pending s)" and "outcome (pending s ! k) = Inl e"
  shows "land c k s = s\<lparr>pending := take k (pending s) @ drop (Suc k) (pending s)\<rparr>"
  using assms by (simp add: reload_defs)

text \<open>A reload of an existing chunk that runs to its end with no other step in between
  leaves the window of that chunk, whatever the chunk index is by then.\<close>

lemma finish_reload:
  assumes k: "k < length (pending s)"
    and t: "pending s ! k
      = \<lparr>target = x, awaiting = LoadCurrent, outcome = decompressChunk c s (int x)\<rparr>"
    and x: "x < length (chunks s)"
  shows "finish c k s =
     render (s\<lparr>buffer := linesOfChunk c s (int x), prevBuffer := linesOfChunk c s (int x - 1),
       nextBuffer := linesOfChunk c s (int x + 1),
       pending := take k (pending s) @ drop (Suc k) (pending s)\<rparr>)"
proof -
  define B where "B = decompress c (chunks s ! x)"
  define P where "P = decompress c (chunks s ! (x - 1))"
  define N where "N = decompress c (chunks s ! Suc x)"
  define rest where "rest = take k (pending s) @ drop (Suc k) (pending s)"
  have t': "pending s ! k = \<lparr>target = x, awaiting = LoadCurrent, outcome = Inr B\<rparr>"
    using t x by (simp add: decompressChunk_def B_def)
  have lB: "linesOfChunk c s (int x) = B"
    using x by (simp add: linesOfChunk_def B_def)
  have lP: "linesOfChunk c s (int x - 1) = (if 0 < x then P else [])"
    using x by (auto simp: linesOfChunk_def P_def nat_diff_distrib)
  have lN: "linesOfChunk c s (int x + 1) = (if Suc x < length (chunks s) then N else [])"
    using x by (auto simp: linesOfChunk_def N_def nat_add_distrib)
  have rest: "length rest < length (pending s)"
    using k by (simp add: rest_def)
  consider (only) "x = 0" "\<not> Suc x < length (chunks s)"
    | (first) "x = 0" "Suc x < length (chunks s)"
    | (last) "0 < x" "\<not> Suc x < length (chunks s)"
    | (inner) "0 < x" "Suc x < length (chunks s)"
    by auto
  then have main: "finish c k s =
     render (s\<lparr>buffer := B, prevBuffer := (if 0 < x then P else []),
       nextBuffer := (if Suc x < length (chunks s) then N else []), pending := rest\<rparr>)"
  proof cases
    case only
    then have "land c k s
        = render (s\<lparr>buffer := B, prevBuffer := [], nextBuffer := [], pending := rest\<rparr>)"
      using land_current [OF k t', of c] by (simp add: rest_def)
    then show ?thesis
      using only rest by (simp add: finish_def Let_def render_def rest_def)
  next
    case first
    define s1 where "s1 = s\<lparr>buffer := B, prevBuffer := [],
      pending := (pending s)[k := \<lparr>target = x, awaiting = LoadNext, outcome = Inr N\<rparr>]\<rparr>"
    have l1: "land c k s = s1"
      using land_current [OF k t', of c] first by (simp add: s1_def N_def)
    have k1: "k < length (pending s1)"
      and t1: "pending s1 ! k = \<lparr>target = x, awaiting = LoadNext, outcome = Inr N\<rparr>"
      using k by (simp_all add: s1_def)
    have l2: "land c k s1
        = render (s\<lparr>buffer := B, prevBuffer := [], nextBuffer := N, pending := rest\<rparr>)"
      using land_next [OF k1 t1, of c] k
      by (simp add: s1_def rest_def render_def upd_conv_take_nth_drop)
    have n1: "length (pending s1) = length (pending s)" by (simp add: s1_def)
    show ?thesis
      using first rest by (simp add: finish_def Let_def l1 l2 n1 render_def rest_def)
  next
    case last
    define s1 where "s1 = s\<lparr>buffer := B,
      pending := (pending s)[k := \<lparr>target = x, awaiting = LoadPrevious, outcome = Inr P\<rparr>]\<rparr>"
    have l1: "land c k s = s1"
      using land_current [OF k t', of c] last x by (simp add: s1_def P_def)
    have k1: "k < length (pending s1)"
      and t1: "pending s1 ! k = \<lparr>target = x, awaiting = LoadPrevious, outcome = Inr P\<rparr>"
      using k by (simp_all add: s1_def)
    have l2: "land c k s1
        = render (s\<lparr>buffer := B, prevBuffer := P, nextBuffer := [], pending := rest\<rparr>)"
      using land_previous [OF k1 t1, of c] k last
      by (simp add: s1_def rest_def render_def upd_conv_take_nth_drop)
    have n1: "length (pending s1) = length (pending s)" by (simp add: s1_def)
    show ?thesis
      using last rest by (simp add: finish_def Let_def l1 l2 n1 render_def rest_def)
  next
    case inner
    define s1 where "s1 = s\<lparr>buffer := B,
      pending := (pending s)[k := \<lparr>target = x, awaiting = LoadPrevious, outcome = Inr P\<rparr>]\<rparr>"
    define s2 where "s2 = s\<lparr>buffer := B, prevBuffer := P,
      pending := (pending s)[k := \<lparr>target = x, awaiting = LoadNext, outcome = Inr N\<rparr>]\<rparr>"
    have l1: "land c k s = s1"
      using land_current [OF k t', of c] inner x by (simp add: s1_def P_def)
    have k1: "k < length (pending s1)"
      and t1: "pending s1 ! k = \<lparr>target = x, awaiting = LoadPrevious, outcome = Inr P\<rparr>"
      using k by (simp_all add: s1_def)
    have l2: "land c k s1 = s2"
      using land_previous [OF k1 t1, of c] k inner
      by (simp add: s1_def s2_def N_def)
    have k2: "k < length (pending s2)"
      and t2: "pending s2 ! k = \<lparr>target = x, awaiting = LoadNext, outcome = Inr N\<rparr>"
      using k by (simp_all add: s2_def)
    have l3: "land c k s2
        = render (s\<lparr>buffer := B, prevBuffer := P, nextBuffer := N, pending := rest\<rparr>)"
      using land_next [OF k2 t2, of c] k
      by (simp add: s2_def rest_def render_def upd_conv_take_nth_drop)
    have n1: "length (pending s1) = length (pending s)"
      and n2: "length (pending s2) = length (pending s)"
      by (simp_all add: s1_def s2_def)
    show ?thesis
      using inner rest by (simp add: finish_def Let_def l1 l2 l3 n1 n2 rest_def)
  qed
  show ?thesis
    unfolding lB lP lN main rest_def ..
qed

lemma finish_reload_window:
  assumes "k < length (pending s)"
    and "pending s ! k
      = \<lparr>target = x, awaiting = LoadCurrent, outcome = decompressChunk c s (int x)\<rparr>"
    and "x < length (chunks s)"
  shows "window (finish c k s) = windowOf c s x"
    and "currentChunkIndex (finish c k s) = currentChunkIndex s"
    and "chunks (finish c k s) = chunks s"
    and "pending (finish c k s) = take k (pending s) @ drop (Suc k) (pending s)"
  by (simp_all add: finish_reload [OF assms] window_def windowOf_def render_def)

lemma stepTask_target: "stepTask c s x j = Some t \<Longrightarrow> target t = x"
  by (auto simp: stepTask_def split: if_splits)

lemma stepTask_some: "stepTask c s x j = Some t \<Longrightarrow> j < landings (length (chunks s)) x"
  by (auto simp: stepTask_def landings_def split: if_splits)

lemma stepTask_none: "stepTask c s x j = None \<Longrightarrow> landings (length (chunks s)) x \<le> j"
  by (auto simp: stepTask_def landings_def split: if_splits)

lemma linesOfChunk_chunks: "chunks s = chunks s0 \<Longrightarrow> linesOfChunk c s i = linesOfChunk c s0 i"
  by (simp add: linesOfChunk_def)

text \<open>What the landing of one step of a reload does, whatever else the session holds.\<close>

lemma land_stepTask:
  assumes k: "k < length (pending s)" and ch: "chunks s = chunks s0"
    and x: "x < length (chunks s0)"
    and t: "stepTask c s0 x j = Some tk" and at: "pending s ! k = tk"
  shows "buffer (land c k s) = (if j + 1 = 1 then linesOfChunk c s0 (int x) else buffer s)"
    and "prevBuffer (land c k s)
      = (if j + 1 = prevStep x then linesOfChunk c s0 (int x - 1) else prevBuffer s)"
    and "nextBuffer (land c k s)
      = (if j + 1 = landings (length (chunks s0)) x then linesOfChunk c s0 (int x + 1)
         else nextBuffer s)"
    and "pending (land c k s)
      = (case stepTask c s0 x (j + 1) of
           None \<Rightarrow> take k (pending s) @ drop (Suc k) (pending s)
         | Some t' \<Rightarrow> (pending s)[k := t'])"
    and "chunks (land c k s) = chunks s0"
    and "chunkSize (land c k s) = chunkSize s"
    and "currentChunkIndex (land c k s) = currentChunkIndex s"
proof -
  have j: "j < landings (length (chunks s0)) x"
    using t by (rule stepTask_some)
  have px: "nat (int x - 1) = x - 1" and nx: "nat (int x + 1) = Suc x"
    by simp_all
  note defs = stepTask_def landings_def prevStep_def render_def linesOfChunk_def px nx
  consider (only) "j = 0" "x = 0" "\<not> Suc x < length (chunks s0)"
    | (first) "j = 0" "x = 0" "Suc x < length (chunks s0)"
    | (last) "j = 0" "0 < x" "\<not> Suc x < length (chunks s0)"
    | (inner) "j = 0" "0 < x" "Suc x < length (chunks s0)"
    | (prev_last) "j = 1" "0 < x" "\<not> Suc x < length (chunks s0)"
    | (prev_inner) "j = 1" "0 < x" "Suc x < length (chunks s0)"
    | (next_first) "j = 1" "x = 0" "Suc x < length (chunks s0)"
    | (next_inner) "j = 2" "0 < x" "Suc x < length (chunks s0)"
    using j by (cases "0 < x"; cases "Suc x < length (chunks s0)")
      (auto simp: landings_def less_Suc_eq numeral_2_eq_2)
  then have all: "buffer (land c k s) = (if j + 1 = 1 then linesOfChunk c s0 (int x) else buffer s)
    \<and> prevBuffer (land c k s)
      = (if j + 1 = prevStep x then linesOfChunk c s0 (int x - 1) else prevBuffer s)
    \<and> nextBuffer (land c k s)
      = (if j + 1 = landings (length (chunks s0)) x then linesOfChunk c s0 (int x + 1)
         else nextBuffer s)
    \<and> pending (land c k s)
      = (case stepTask c s0 x (j + 1) of
           None \<Rightarrow> take k (pending s) @ drop (Suc k) (pending s)
         | Some t' \<Rightarrow> (pending s)[k := t'])
    \<and> chunks (land c k s) = chunks s0
    \<and> chunkSize (land c k s) = chunkSize s
    \<and> currentChunkIndex (land c k s) = currentChunkIndex s"
  proof cases
    case only
    with t at have tk: "pending s ! k
        = \<lparr>target = x, awaiting = LoadCurrent, outcome = Inr (linesOfChunk c s0 (int x))\<rparr>"
      by (simp add: stepTask_def)
    have "land c k s = render (s\<lparr>buffer := linesOfChunk c s0 (int x), prevBuffer := [],
        nextBuffer := [], pending := take k (pending s) @ drop (Suc k) (pending s)\<rparr>)"
      using land_current [OF k tk, of c] only ch by simp
    then show ?thesis
      using only x ch by (simp add: defs)
  next
    case first
    with t at have tk: "pending s ! k
        = \<lparr>target = x, awaiting = LoadCurrent, outcome = Inr (linesOfChunk c s0 (int x))\<rparr>"
      by (simp add: stepTask_def)
    have "land c k s = s\<lparr>buffer := linesOfChunk c s0 (int x), prevBuffer := [],
        pending := (pending s)[k := \<lparr>target = x, awaiting = LoadNext,
          outcome = Inr (decompress c (chunks s0 ! Suc x))\<rparr>]\<rparr>"
      using land_current [OF k tk, of c] first ch by simp
    then show ?thesis
      using first x ch by (simp add: defs)
  next
    case last
    with t at have tk: "pending s ! k
        = \<lparr>target = x, awaiting = LoadCurrent, outcome = Inr (linesOfChunk c s0 (int x))\<rparr>"
      by (simp add: stepTask_def)
    have "land c k s = s\<lparr>buffer := linesOfChunk c s0 (int x),
        pending := (pending s)[k := \<lparr>target = x, awaiting = LoadPrevious,
          outcome = Inr (decompress c (chunks s0 ! (x - 1)))\<rparr>]\<rparr>"
      using land_current [OF k tk, of c] last x ch by simp
    then show ?thesis
      using last x ch by (simp add: defs)
  next
    case inner
    with t at have tk: "pending s ! k
        = \<lparr>target = x, awaiting = LoadCurrent, outcome = Inr (linesOfChunk c s0 (int x))\<rparr>"
      by (simp add: stepTask_def)
    have "land c k s = s\<lparr>buffer := linesOfChunk c s0 (int x),
        pending := (pending s)[k := \<lparr>target = x, awaiting = LoadPrevious,
          outcome = Inr (decompress c (chunks s0 ! (x - 1)))\<rparr>]\<rparr>"
      using land_current [OF k tk, of c] inner x ch by simp
    then show ?thesis
      using inner x ch by (simp add: defs)
  next
    case prev_last
    with t at j have tk: "pending s ! k
        = \<lparr>target = x, awaiting = LoadPrevious, outcome = Inr (linesOfChunk c s0 (int x - 1))\<rparr>"
      by (simp add: stepTask_def)
    have "land c k s = render (s\<lparr>prevBuffer := linesOfChunk c s0 (int x - 1), nextBuffer := [],
        pending := take k (pending s) @ drop (Suc k) (pending s)\<rparr>)"
      using land_previous [OF k tk, of c] prev_last ch by simp
    then show ?thesis
      using prev_last x ch by (simp add: defs)
  next
    case prev_inner
    with t at j have tk: "pending s ! k
        = \<lparr>target = x, awaiting = LoadPrevious, outcome = Inr (linesOfChunk c s0 (int x - 1))\<rparr>"
      by (simp add: stepTask_def)
    have "land c k s = s\<lparr>prevBuffer := linesOfChunk c s0 (int x - 1),
        pending := (pending s)[k := \<lparr>target = x, awaiting = LoadNext,
          outcome = Inr (decompress c (chunks s0 ! Suc x))\<rparr>]\<rparr>"
      using land_previous [OF k tk, of c] prev_inner ch by simp
    then show ?thesis
      using prev_inner x ch by (simp add: defs)
  next
    case next_first
    with t at j have tk: "pending s ! k
        = \<lparr>target = x, awaiting = LoadNext, outcome = Inr (linesOfChunk c s0 (int x + 1))\<rparr>"
      by (simp add: stepTask_def)
    show ?thesis
      using next_first x ch by (simp add: land_next [OF k tk] defs)
  next
    case next_inner
    with t at j have tk: "pending s ! k
        = \<lparr>target = x, awaiting = LoadNext, outcome = Inr (linesOfChunk c s0 (int x + 1))\<rparr>"
      by (simp add: stepTask_def)
    show ?thesis
      using next_inner x ch by (simp add: land_next [OF k tk] defs)
  qed
  from all show "buffer (land c k s) = (if j + 1 = 1 then linesOfChunk c s0 (int x) else buffer s)"
    and "prevBuffer (land c k s)
      = (if j + 1 = prevStep x then linesOfChunk c s0 (int x - 1) else prevBuffer s)"
    and "nextBuffer (land c k s)
      = (if j + 1 = landings (length (chunks s0)) x then linesOfChunk c s0 (int x + 1)
         else nextBuffer s)"
    and "pending (land c k s)
      = (case stepTask c s0 x (j + 1) of
           None \<Rightarrow> take k (pending s) @ drop (Suc k) (pending s)
         | Some t' \<Rightarrow> (pending s)[k := t'])"
    and "chunks (land c k s) = chunks s0"
    and "chunkSize (land c k s) = chunkSize s"
    and "currentChunkIndex (land c k s) = currentChunkIndex s"
    by simp_all
qed


lemma map_filter_other:
  "x \<notin> set xs \<Longrightarrow> List.map_filter (f(x := v)) xs = List.map_filter f xs"
  by (induction xs) (auto split: option.split)

lemma map_filter_snoc:
  "List.map_filter f (xs @ [x])
     = List.map_filter f xs @ (case f x of None \<Rightarrow> [] | Some y \<Rightarrow> [y])"
  by (induction xs) (simp_all split: option.split)

lemma firstFor_none:
  assumes "\<And>y t. f y = Some t \<Longrightarrow> target t = y" and "f x = None"
  shows "firstFor x (List.map_filter f xs) = None"
proof (induction xs)
  case Nil
  show ?case by simp
next
  case (Cons y ys)
  show ?case
  proof (cases "f y")
    case None
    then show ?thesis using Cons by simp
  next
    case (Some u)
    then have "target u = y" by (rule assms(1))
    moreover have "y \<noteq> x" using Some assms(2) by auto
    ultimately show ?thesis using Some Cons by simp
  qed
qed

lemma firstFor_some:
  assumes tg: "\<And>y t. f y = Some t \<Longrightarrow> target t = y"
    and "distinct xs" and "x \<in> set xs" and fx: "f x = Some tk"
  shows "\<exists>k. firstFor x (List.map_filter f xs) = Some k
      \<and> k < length (List.map_filter f xs)
      \<and> List.map_filter f xs ! k = tk
      \<and> List.map_filter (f(x := None)) xs
          = take k (List.map_filter f xs) @ drop (Suc k) (List.map_filter f xs)
      \<and> (\<forall>u. List.map_filter (f(x := Some u)) xs = (List.map_filter f xs)[k := u])"
  using assms(2,3)
proof (induction xs)
  case Nil
  then show ?case by simp
next
  case (Cons y ys)
  show ?case
  proof (cases "y = x")
    case True
    then have "x \<notin> set ys" using Cons.prems by simp
    then have "List.map_filter (f(x := v)) ys = List.map_filter f ys" for v
      by (rule map_filter_other)
    moreover have "target tk = x" using fx by (rule tg)
    ultimately show ?thesis
      using True fx by (intro exI [of _ 0]) (simp del: fun_upd_apply add: fun_upd_same fun_upd_other)
  next
    case False
    then have "distinct ys" "x \<in> set ys" using Cons.prems by simp_all
    with Cons.IH obtain k where k: "firstFor x (List.map_filter f ys) = Some k"
      "k < length (List.map_filter f ys)" "List.map_filter f ys ! k = tk"
      "List.map_filter (f(x := None)) ys
          = take k (List.map_filter f ys) @ drop (Suc k) (List.map_filter f ys)"
      "\<And>u. List.map_filter (f(x := Some u)) ys = (List.map_filter f ys)[k := u]"
      by blast
    show ?thesis
    proof (cases "f y")
      case None
      then show ?thesis
        using False k by (intro exI [of _ k]) (simp del: fun_upd_apply add: fun_upd_same fun_upd_other)
    next
      case (Some u)
      then have "target u = y" by (rule tg)
      then show ?thesis
        using False Some k by (intro exI [of _ "Suc k"]) (simp del: fun_upd_apply add: fun_upd_same fun_upd_other)
    qed
  qed
qed


lemma tracked_landOf:
  assumes tr: "tracked c s0 xs t s" and d: "distinct xs" and x: "x \<in> set xs"
    and ex: "\<forall>y\<in>set xs. y < length (chunks s0)"
  shows "tracked c s0 xs (tallyStep (length (chunks s0)) t x) (landOf c x s)"
    and "currentChunkIndex (landOf c x s) = currentChunkIndex s"
proof -
  define f where "f = (\<lambda>y. stepTask c s0 y (landed t y))"
  define n where "n = length (chunks s0)"
  define j where "j = landed t x"
  have tg: "\<And>y u. f y = Some u \<Longrightarrow> target u = y"
    unfolding f_def by (rule stepTask_target)
  have p: "pending s = List.map_filter f xs" and ch: "chunks s = chunks s0"
    using tr by (simp_all add: tracked_def f_def)
  have xn: "x < length (chunks s0)" using ex x by simp
  have both: "tracked c s0 xs (tallyStep n t x) (landOf c x s)
      \<and> currentChunkIndex (landOf c x s) = currentChunkIndex s"
  proof (cases "f x")
    case None
    then have "landings n x \<le> j"
      unfolding f_def n_def j_def by (rule stepTask_none)
    then have "tallyStep n t x = t"
      by (simp add: tallyStep_def Let_def j_def)
    moreover have "landOf c x s = s"
      using firstFor_none [of f x xs, OF tg None] by (simp add: landOf_def p)
    ultimately show ?thesis using tr by simp
  next
    case (Some tk)
    then have st: "stepTask c s0 x j = Some tk"
      by (simp add: f_def j_def)
    then have jn: "j < landings n x"
      unfolding n_def by (rule stepTask_some)
    from firstFor_some [of f xs x tk, OF tg d x Some]
    obtain k where k: "firstFor x (List.map_filter f xs) = Some k"
      "k < length (List.map_filter f xs)" "List.map_filter f xs ! k = tk"
      "List.map_filter (f(x := None)) xs
          = take k (List.map_filter f xs) @ drop (Suc k) (List.map_filter f xs)"
      "\<And>u. List.map_filter (f(x := Some u)) xs = (List.map_filter f xs)[k := u]"
      by blast
    have lo: "landOf c x s = land c k s"
      using k(1) by (simp add: landOf_def p)
    have kp: "k < length (pending s)" and at: "pending s ! k = tk"
      using k(2,3) by (simp_all add: p)
    note l = land_stepTask [OF kp ch xn st at]
    define t' where "t' = tallyStep n t x"
    have t': "landed t' = (landed t)(x := j + 1)"
      "curFrom t' = (if j + 1 = 1 then Some x else curFrom t)"
      "prevFrom t' = (if j + 1 = prevStep x then Some x else prevFrom t)"
      "nextFrom t' = (if j + 1 = landings n x then Some x else nextFrom t)"
      using jn by (simp_all add: t'_def tallyStep_def Let_def j_def)
    have f': "(\<lambda>y. stepTask c s0 y (landed t' y)) = f(x := stepTask c s0 x (j + 1))"
      by (rule ext) (simp add: t'(1) f_def)
    have pend: "pending (land c k s) = List.map_filter (f(x := stepTask c s0 x (j + 1))) xs"
      unfolding l(4) p using k(4,5) by (cases "stepTask c s0 x (j + 1)") simp_all
    have "tracked c s0 xs t' (land c k s)"
      unfolding tracked_def f' pend l(1,2,3,5,6) t'(2,3,4)
      using tr by (simp add: tracked_def n_def)
    then show ?thesis
      unfolding lo t'_def using l(7) by simp
  qed
  then show "tracked c s0 xs (tallyStep (length (chunks s0)) t x) (landOf c x s)"
    and "currentChunkIndex (landOf c x s) = currentChunkIndex s"
    by (simp_all add: n_def)
qed

lemma tracked_run:
  assumes "tracked c s0 xs t s" and "distinct xs" and "set sched \<subseteq> set xs"
    and "\<forall>y\<in>set xs. y < length (chunks s0)"
  shows "tracked c s0 xs (foldl (tallyStep (length (chunks s0))) t sched) (run c sched s)
    \<and> currentChunkIndex (run c sched s) = currentChunkIndex s"
  using assms(1,3)
proof (induction sched arbitrary: t s)
  case Nil
  then show ?case by simp
next
  case (Cons x sched)
  have x: "x \<in> set xs" and rest: "set sched \<subseteq> set xs"
    using Cons.prems(2) by simp_all
  note step = tracked_landOf [OF Cons.prems(1) assms(2) x assms(4)]
  from Cons.IH [OF step(1) rest] show ?case
    by (simp add: step(2))
qed

lemma tracked_loadChunks:
  assumes "tracked c s0 xs t s" and "landed t b = 0" and "b < length (chunks s0)"
  shows "tracked c s0 (xs @ [b]) t (loadChunks c b s)"
    and "currentChunkIndex (loadChunks c b s) = int b"
proof -
  have "decompressChunk c (s\<lparr>currentChunkIndex := int b\<rparr>) (int b)
      = Inr (linesOfChunk c s0 (int b))"
    using assms(1,3) by (simp add: decompressChunk_def linesOfChunk_def tracked_def)
  then show "tracked c s0 (xs @ [b]) t (loadChunks c b s)"
    using assms(1,2)
    by (simp add: tracked_def loadChunks_def Let_def map_filter_snoc stepTask_def)
  show "currentChunkIndex (loadChunks c b s) = int b"
    by (simp add: loadChunks_def Let_def)
qed

lemma landed_other:
  "x \<notin> set xs \<Longrightarrow> landed (foldl (tallyStep n) t xs) x = landed t x"
  by (induction xs arbitrary: t) (auto simp: tallyStep_def Let_def)

lemma landed_bound:
  "(\<And>y. landed t y \<le> landings n y) \<Longrightarrow>
   landed (foldl (tallyStep n) t xs) x \<le> landings n x"
proof (induction xs arbitrary: t)
  case Nil
  then show ?case by simp
next
  case (Cons z zs)
  have "landed (tallyStep n t z) y \<le> landings n y" for y
    using Cons.prems [of y] by (simp add: tallyStep_def Let_def)
  then show ?case
    using Cons.IH [of "tallyStep n t z"] by simp
qed

lemma tracked_start:
  "pending s = [] \<Longrightarrow>
   tracked c s [] \<lparr>landed = (\<lambda>x. 0), prevFrom = None, curFrom = None, nextFrom = None\<rparr> s"
  by (simp add: tracked_def)

text \<open>
  C3, as stated, fails: the reload has no staleness check. In the session of four
  chunks, a jump to chunk 1 and then one to chunk 3 start two reloads, of three steps
  and of two. When their steps land in turn, in the order the reloads were started, the
  last step to land is the third of the superseded reload: the final buffers mix chunk 3
  (previous and current) with chunk 2 as the next buffer, where the window of chunk 3
  has none. When the reload of chunk 3 lands first and the reload of chunk 1 after it,
  the final buffers are the window of chunk 1 under the chunk index 3.
\<close>

theorem C3_stale_reload_counterexample:
  "appendChunkedLines plain [str ''a0'', str ''a1'', str ''b0'', str ''b1'', str ''c0'', str ''c1'', str ''d0''] True fresh2
       = Some (Inr (), loaded4)
   \<and> currentChunkIndex two_jumps = 3
   \<and> length (pending two_jumps) = 2
   \<and> windowOf plain two_jumps 3 = ([str ''c0'', str ''c1''], [str ''d0''], [])
   \<and> window (land plain 0 (land plain 1 (land plain 0 (land plain 1 (land plain 0 two_jumps)))))
       = ([str ''c0'', str ''c1''], [str ''d0''], [str ''c0'', str ''c1''])
   \<and> currentChunkIndex
         (land plain 0 (land plain 1 (land plain 0 (land plain 1 (land plain 0 two_jumps))))) = 3
   \<and> pending (land plain 0 (land plain 1 (land plain 0 (land plain 1 (land plain 0 two_jumps)))))
       = []
   \<and> window (finish plain 0 (finish plain 1 two_jumps))
       = ([str ''a0'', str ''a1''], [str ''b0'', str ''b1''], [str ''c0'', str ''c1''])
   \<and> currentChunkIndex (finish plain 0 (finish plain 1 two_jumps)) = 3"
  by (simp add: scenario_defs step_defs)

text \<open>
  C3, amended: the results of a reload are committed when they land, whatever the chunk
  index is by then; nothing is discarded. In a session of positive chunk size with no
  reload in flight, take two jumps to existing chunks A then B, A and B different, any
  steps of reload A landing before the second jump (\<open>pre\<close>) and steps of the two reloads
  landing in any order after it (\<open>post\<close>). The chunk index is B from the second jump on,
  and each buffer holds what the last assignment to it left: \<open>buffer\<close> is chunk X of the
  reload X whose first step landed last; \<open>prevBuffer\<close> is chunk X - 1 (no lines when
  X = 0) of the reload whose assignment to it landed last, its second step, or its first
  when X = 0; \<open>nextBuffer\<close> is chunk X + 1 (no lines when X is the last chunk) of the
  reload whose last step landed last; a buffer that no step has assigned is as it was.
  No reload is left suspended exactly when every step of both has landed.
\<close>

theorem C3_last_assignment_wins:
  assumes "0 < chunkSize s" and idle: "pending s = []"
    and a: "a < length (chunks s)" and b: "b < length (chunks s)" and ab: "a \<noteq> b"
    and miss: "currentChunkIndex s \<noteq> int a"
    and vpa: "vp_start vpa div chunkSize s = a" and vpb: "vp_start vpb div chunkSize s = b"
    and pre: "set pre \<subseteq> {a}" and post: "set post \<subseteq> {a, b}"
  shows "(let s' = run c post (snd (getChunkedLines c vpb
                      (run c pre (snd (getChunkedLines c vpa s)))));
              n = length (chunks s);
              t = tallyOf n (pre @ post)
          in currentChunkIndex s' = int b
             \<and> buffer s'
                 = (case curFrom t of None \<Rightarrow> buffer s | Some x \<Rightarrow> linesOfChunk c s (int x))
             \<and> prevBuffer s'
                 = (case prevFrom t of None \<Rightarrow> prevBuffer s
                    | Some x \<Rightarrow> linesOfChunk c s (int x - 1))
             \<and> nextBuffer s'
                 = (case nextFrom t of None \<Rightarrow> nextBuffer s
                    | Some x \<Rightarrow> linesOfChunk c s (int x + 1))
             \<and> (pending s' = []) = (landed t a = landings n a \<and> landed t b = landings n b))"
proof -
  define n where "n = length (chunks s)"
  define t0 :: tally
    where "t0 = \<lparr>landed = (\<lambda>x. 0), prevFrom = None, curFrom = None, nextFrom = None\<rparr>"
  define s1 where "s1 = loadChunks c a s"
  define s2 where "s2 = run c pre s1"
  define t2 where "t2 = foldl (tallyStep n) t0 pre"
  define s3 where "s3 = loadChunks c b s2"
  define s4 where "s4 = run c post s3"
  define t4 where "t4 = foldl (tallyStep n) t2 post"
  have g1: "snd (getChunkedLines c vpa s) = s1"
    using miss vpa by (simp add: getChunkedLines_def Let_def s1_def)
  have tr0: "tracked c s [] t0 s"
    unfolding t0_def using idle by (rule tracked_start)
  have tr1: "tracked c s [a] t0 s1" and c1: "currentChunkIndex s1 = int a"
    using tracked_loadChunks [OF tr0 _ a] by (simp_all add: s1_def t0_def)
  have r2: "tracked c s [a] t2 s2 \<and> currentChunkIndex s2 = currentChunkIndex s1"
    unfolding t2_def s2_def n_def using pre a by (intro tracked_run [OF tr1]) simp_all
  then have tr2: "tracked c s [a] t2 s2" and c2: "currentChunkIndex s2 = int a"
    by (simp_all add: c1)
  have "b \<notin> set pre" using pre ab by auto
  then have l2: "landed t2 b = 0"
    unfolding t2_def by (simp add: landed_other t0_def)
  have cs2: "chunkSize s2 = chunkSize s"
    using tr2 by (simp add: tracked_def)
  have g3: "snd (getChunkedLines c vpb s2) = s3"
    using ab vpb by (simp add: getChunkedLines_def Let_def s3_def cs2 c2)
  have tr3: "tracked c s [a, b] t2 s3" and c3: "currentChunkIndex s3 = int b"
    using tracked_loadChunks [OF tr2 l2 b] by (simp_all add: s3_def)
  have r4: "tracked c s [a, b] t4 s4 \<and> currentChunkIndex s4 = currentChunkIndex s3"
    unfolding t4_def s4_def n_def using post a b ab by (intro tracked_run [OF tr3]) simp_all
  then have tr4: "tracked c s [a, b] t4 s4" and c4: "currentChunkIndex s4 = int b"
    by (simp_all add: c3)
  have t4: "tallyOf n (pre @ post) = t4"
    by (simp add: tallyOf_def t4_def t2_def t0_def)
  have fin: "run c post (snd (getChunkedLines c vpb (run c pre (snd (getChunkedLines c vpa s)))))
      = s4"
    by (simp add: g1 s2_def [symmetric] g3 s4_def)
  have pend: "(pending s4 = []) = (landed t4 a = landings n a \<and> landed t4 b = landings n b)"
  proof -
    have le: "landed t4 x \<le> landings n x" for x
      unfolding t4 [symmetric] tallyOf_def by (rule landed_bound) simp
    have full: "(landings n x \<le> landed t4 x) = (landed t4 x = landings n x)" for x
      using le [of x] by linarith
    have none: "(stepTask c s x j = None) = (landings n x \<le> j)" for x j
      by (auto simp: stepTask_def landings_def n_def)
    have "pending s4 = List.map_filter (\<lambda>y. stepTask c s y (landed t4 y)) [a, b]"
      using tr4 by (simp add: tracked_def)
    then show ?thesis
      using none [of a "landed t4 a"] none [of b "landed t4 b"] full [of a] full [of b]
      by (cases "stepTask c s a (landed t4 a)"; cases "stepTask c s b (landed t4 b)") simp_all
  qed
  show ?thesis
    unfolding Let_def fin n_def [symmetric] t4 using tr4 c4 pend by (simp add: tracked_def)
qed

text \<open>
  C3, amended, on the jumps to chunk 1 (reload A, three steps) and then to chunk 3
  (reload B, two steps) of the session of four chunks. With the five steps landing in
  the order B, A, A, A, B the window ends as chunk 2 (previous, from reload B), chunk 1
  (current, from reload A) and no next lines (from reload B), under the chunk index 3.
  With the first step of A landing before the second jump and the others in the order
  B, A, B, A after it, the window ends as chunk 2 (previous, from B), chunk 3 (current,
  from B) and chunk 2 (next, from A).
\<close>

theorem C3_last_assignment_wins_witness:
  "0 < chunkSize loaded4 \<and> pending loaded4 = []
   \<and> 1 < length (chunks loaded4) \<and> 3 < length (chunks loaded4) \<and> (1::nat) \<noteq> 3
   \<and> currentChunkIndex loaded4 \<noteq> 1
   \<and> vp_start (rowsFrom 2 1) div chunkSize loaded4 = 1
   \<and> vp_start (rowsFrom 6 1) div chunkSize loaded4 = 3
   \<and> set [] \<subseteq> {1::nat} \<and> set [3, 1, 1, 1, 3] \<subseteq> {1::nat, 3}
   \<and> curFrom (tallyOf 4 [3, 1, 1, 1, 3]) = Some 1
   \<and> prevFrom (tallyOf 4 [3, 1, 1, 1, 3]) = Some 3
   \<and> nextFrom (tallyOf 4 [3, 1, 1, 1, 3]) = Some 3
   \<and> currentChunkIndex (run plain [3, 1, 1, 1, 3] two_jumps) = 3
   \<and> window (run plain [3, 1, 1, 1, 3] two_jumps)
       = ([str ''c0'', str ''c1''], [str ''b0'', str ''b1''], [])
   \<and> pending (run plain [3, 1, 1, 1, 3] two_jumps) = []
   \<and> set [1] \<subseteq> {1::nat} \<and> set [3, 1, 3, 1] \<subseteq> {1::nat, 3}
   \<and> curFrom (tallyOf 4 ([1] @ [3, 1, 3, 1])) = Some 3
   \<and> prevFrom (tallyOf 4 ([1] @ [3, 1, 3, 1])) = Some 3
   \<and> nextFrom (tallyOf 4 ([1] @ [3, 1, 3, 1])) = Some 1
   \<and> window (run plain [3, 1, 3, 1] (snd (getChunkedLines plain (rowsFrom 6 1)
         (run plain [1] (snd (getChunkedLines plain (rowsFrom 2 1) loaded4))))))
       = ([str ''c0'', str ''c1''], [str ''d0''], [str ''c0'', str ''c1''])"
proof -
  have h: "0 < chunkSize loaded4" "pending loaded4 = []"
    "1 < length (chunks loaded4)" "3 < length (chunks loaded4)"
    "currentChunkIndex loaded4 \<noteq> int 1"
    "vp_start (rowsFrom 2 1) div chunkSize loaded4 = 1"
    "vp_start (rowsFrom 6 1) div chunkSize loaded4 = 3"
    by (simp_all add: scenario_defs step_defs)
  have ab: "(1::nat) \<noteq> 3" and pre: "set [] \<subseteq> {1::nat}"
    and post: "set [3, 1, 1, 1, 3] \<subseteq> {1::nat, 3}"
    and pre': "set [1] \<subseteq> {1::nat}" and post': "set [3, 1, 3, 1] \<subseteq> {1::nat, 3}"
    by simp_all
  have n: "length (chunks loaded4) = 4"
    by (simp add: scenario_defs step_defs)
  have t: "curFrom (tallyOf 4 [3, 1, 1, 1, 3]) = Some 1"
    "prevFrom (tallyOf 4 [3, 1, 1, 1, 3]) = Some 3"
    "nextFrom (tallyOf 4 [3, 1, 1, 1, 3]) = Some 3"
    "landed (tallyOf 4 [3, 1, 1, 1, 3]) 1 = 3"
    "landed (tallyOf 4 [3, 1, 1, 1, 3]) 3 = 2"
    "landings 4 1 = 3" "landings 4 3 = 2"
    by (simp_all add: tally_defs)
  have t': "curFrom (tallyOf 4 ([1] @ [3, 1, 3, 1])) = Some 3"
    "prevFrom (tallyOf 4 ([1] @ [3, 1, 3, 1])) = Some 3"
    "nextFrom (tallyOf 4 ([1] @ [3, 1, 3, 1])) = Some 1"
    by (simp_all add: tally_defs)
  have l: "linesOfChunk plain loaded4 (int 1) = [str ''b0'', str ''b1'']"
    "linesOfChunk plain loaded4 (int 3 - 1) = [str ''c0'', str ''c1'']"
    "linesOfChunk plain loaded4 (int 3 + 1) = []"
    "linesOfChunk plain loaded4 (int 3) = [str ''d0'']"
    "linesOfChunk plain loaded4 (int 1 + 1) = [str ''c0'', str ''c1'']"
    by (simp_all add: scenario_defs step_defs)
  note inst = C3_last_assignment_wins [OF h(1,2,3,4) ab h(5,6,7) pre post, where c = plain,
      unfolded Let_def run.simps append_Nil two_jumps_def [symmetric] n t option.case l]
  note inst' = C3_last_assignment_wins [OF h(1,2,3,4) ab h(5,6,7) pre' post', where c = plain,
      unfolded Let_def n t' option.case l]
  have mix: "window (run plain [3, 1, 3, 1] (snd (getChunkedLines plain (rowsFrom 6 1)
         (run plain [1] (snd (getChunkedLines plain (rowsFrom 2 1) loaded4))))))
       = ([str ''c0'', str ''c1''], [str ''d0''], [str ''c0'', str ''c1''])"
    using inst' by (simp only: window_def)
  show ?thesis
    using h inst t(1,2,3) t' mix by (simp add: window_def)
qed

text \<open>
  C5: the read of the requested chunk in the reload has no bounds check, unlike the reads
  of its two neighbours and the read in the append loop. In a session just activated
  the store is empty; the viewer's first resolve starts a reload whose
  \<open>decompressChunk(0)\<close> is rejected with a \<open>TypeError\<close>, and when the rejection lands
  the reload ends there: no buffer is assigned and the viewer is not told to repaint.
\<close>

theorem C5_requested_chunk_read_rejects:
  "chunkCount fresh4 = 0
   \<and> decompressChunk plain fresh4 0 = Inl TypeError
   \<and> getChunkedLines plain (rowsFrom 0 2) fresh4 = (replicate 2 (str ''...''), probed4)
   \<and> pending probed4 = [\<lparr>target = 0, awaiting = LoadCurrent, outcome = Inl TypeError\<rparr>]
   \<and> land plain 0 probed4 = probed4\<lparr>pending := []\<rparr>
   \<and> renders (land plain 0 probed4) = renders fresh4"
  by (simp add: scenario_defs step_defs)

section \<open>Properties of the ingestion\<close>

lemma read_tail:
  "(if i < length (chunks s) then decompressChunk c s (int i) else Inr [])
     = Inr (linesOfChunk c s (int i))"
  by (simp add: decompressChunk_def linesOfChunk_def)

lemma compressChunk_fields [simp]:
  "totalLines (compressChunk c i ls s) = totalLines s"
  "chunkSize (compressChunk c i ls s) = chunkSize s"
  "buffer (compressChunk c i ls s) = buffer s"
  "currentChunkIndex (compressChunk c i ls s) = currentChunkIndex s"
  "prevBuffer (compressChunk c i ls s) = prevBuffer s"
  "nextBuffer (compressChunk c i ls s) = nextBuffer s"
  "pending (compressChunk c i ls s) = pending s"
  by (simp_all add: compressChunk_def Let_def)

lemma appendLoop_done: "appendLoop c s idx pos [] = Some (Inr (), s)"
  by (simp add: appendLoop.simps)

lemma appendLoop_last:
  assumes "rem \<noteq> []" and "pos < chunkSize s" and "length rem \<le> chunkSize s - pos"
  shows "appendLoop c s idx pos rem
    = Some (Inr (), compressChunk c idx (linesOfChunk c s (int idx) @ rem)
        (s\<lparr>totalLines := totalLines s + length rem\<rparr>))"
proof -
  have fits: "int (length rem) \<le> int (chunkSize s) - int pos"
    using assms(2,3) by linarith
  show ?thesis
    using assms(1,2) fits
    by (subst appendLoop.simps) (simp add: read_tail Let_def appendLoop_done)
qed

lemma appendLoop_more:
  assumes "rem \<noteq> []" and "pos < chunkSize s" and "\<not> length rem \<le> chunkSize s - pos"
  shows "appendLoop c s idx pos rem
    = appendLoop c
        (compressChunk c idx (linesOfChunk c s (int idx) @ take (chunkSize s - pos) rem)
          (s\<lparr>totalLines := totalLines s + (chunkSize s - pos)\<rparr>))
        (idx + 1) 0 (drop (chunkSize s - pos) rem)"
proof -
  have over: "\<not> int (length rem) \<le> int (chunkSize s) - int pos"
    using assms(2,3) by linarith
  have space: "nat (int (chunkSize s) - int pos) = chunkSize s - pos"
    and pos: "\<not> int (chunkSize s) - int pos < 0"
    using assms(2) by simp_all
  have taken: "length (take (chunkSize s - pos) rem) = chunkSize s - pos"
    using assms(3) by simp
  show ?thesis
    using assms(1,2) over
    by (subst appendLoop.simps)
      (simp add: read_tail Let_def slice_to_def slice_from_def space pos taken)
qed

lemma slice_partition: "length (slice_to xs r) + length (slice_from xs r) = length xs"
proof -
  have "length (take k xs) + length (drop k xs) = length xs" for k
    by (metis append_take_drop_id length_append)
  then show ?thesis
    by (cases "r < 0") (simp_all only: slice_to_def slice_from_def if_True if_False)
qed

lemma length_compressChunk:
  "length (chunks (compressChunk c i ls s))
     = (if i < length (chunks s) then length (chunks s) else length (chunks s) + 1)"
  by (simp add: compressChunk_def Let_def)

lemma ceil_div:
  fixes t n :: nat
  assumes "0 < n"
  shows "(t + n - 1) div n = t div n + (if t mod n = 0 then 0 else 1)"
proof -
  define q r where "q = t div n" and "r = t mod n"
  have t: "t = q * n + r" and r: "r < n"
    using assms by (simp_all add: q_def r_def)
  show ?thesis
  proof (cases "r = 0")
    case True
    have "t + n - 1 = q * n + (n - 1)" using t True assms by simp
    moreover have "n - 1 < n" using assms by simp
    ultimately have "(t + n - 1) div n = q"
      by (simp only: div_block)
    then show ?thesis using True by (simp add: q_def r_def)
  next
    case False
    have "t + n - 1 = (q + 1) * n + (r - 1)" using t False assms by simp
    moreover have "r - 1 < n" using r by simp
    ultimately have "(t + n - 1) div n = q + 1"
      by (simp only: div_block)
    then show ?thesis using False by (simp add: q_def r_def)
  qed
qed

lemma ceil_fill:
  fixes t n m :: nat
  assumes "0 < n" "0 < m" "t mod n + m \<le> n"
  shows "(t + m + n - 1) div n = t div n + 1"
proof -
  define q r where "q = t div n" and "r = t mod n"
  have t: "t = q * n + r"
    by (simp add: q_def r_def)
  have "t + m + n - 1 = (q + 1) * n + (r + m - 1)" using t assms by simp
  moreover have "r + m - 1 < n" using assms by (simp add: r_def)
  ultimately have "(t + m + n - 1) div n = q + 1"
    by (simp only: div_block)
  then show ?thesis by (simp add: q_def)
qed

lemma next_block:
  fixes t n :: nat
  assumes "0 < n"
  shows "(t + (n - t mod n)) div n = t div n + 1" and "(t + (n - t mod n)) mod n = 0"
proof -
  define q r where "q = t div n" and "r = t mod n"
  have t: "t = q * n + r" and r: "r < n"
    using assms by (simp_all add: q_def r_def)
  have eq: "t + (n - r) = (q + 1) * n + 0"
    using r by (simp add: t)
  have "(t + (n - r)) div n = q + 1"
    unfolding eq using assms by (simp only: div_block)
  then show "(t + (n - t mod n)) div n = t div n + 1"
    by (simp only: q_def r_def)
  have "(t + (n - r)) mod n = 0"
    unfolding eq by simp
  then show "(t + (n - t mod n)) mod n = 0"
    by (simp only: r_def)
qed

text \<open>With room in a chunk the loop returns, and it has counted every line it was given.\<close>

lemma appendLoop_returns:
  "pos < chunkSize s \<Longrightarrow>
   \<exists>s'. appendLoop c s idx pos rem = Some (Inr (), s')
        \<and> totalLines s' = totalLines s + length rem
        \<and> chunkSize s' = chunkSize s \<and> buffer s' = buffer s
        \<and> currentChunkIndex s' = currentChunkIndex s
        \<and> prevBuffer s' = prevBuffer s \<and> nextBuffer s' = nextBuffer s
        \<and> pending s' = pending s"
proof (induction rem arbitrary: s idx pos rule: length_induct)
  case (1 rem)
  show ?case
  proof (cases "rem = []")
    case True
    then show ?thesis by (simp add: appendLoop_done)
  next
    case False
    note ne = False
    show ?thesis
    proof (cases "length rem \<le> chunkSize s - pos")
      case True
      show ?thesis
        by (simp add: appendLoop_last [OF ne "1.prems" True])
    next
      case False
      define space where "space = chunkSize s - pos"
      define s1 where "s1 = compressChunk c idx (linesOfChunk c s (int idx) @ take space rem)
        (s\<lparr>totalLines := totalLines s + space\<rparr>)"
      have step: "appendLoop c s idx pos rem = appendLoop c s1 (idx + 1) 0 (drop space rem)"
        unfolding s1_def space_def by (rule appendLoop_more [OF ne "1.prems" False])
      have space: "0 < space" "space < length rem"
        using "1.prems" False by (simp_all add: space_def)
      then have shorter: "length (drop space rem) < length rem"
        by simp
      have "0 < chunkSize s1" using "1.prems" by (simp add: s1_def)
      with "1.IH" shorter obtain s' where
        "appendLoop c s1 (idx + 1) 0 (drop space rem) = Some (Inr (), s')"
        and "totalLines s' = totalLines s1 + length (drop space rem)"
        and "chunkSize s' = chunkSize s1" "buffer s' = buffer s1"
        and "currentChunkIndex s' = currentChunkIndex s1"
        and "prevBuffer s' = prevBuffer s1" "nextBuffer s' = nextBuffer s1"
        and "pending s' = pending s1"
        by blast
      then show ?thesis
        unfolding step using space by (simp add: s1_def)
    qed
  qed
qed

text \<open>Started at the tail of a store that has one chunk for every \<open>chunkSize\<close> lines
  begun, the loop leaves such a store.\<close>

lemma appendLoop_chunkCount:
  assumes "0 < chunkSize s"
    and "idx = totalLines s div chunkSize s" and "pos = totalLines s mod chunkSize s"
    and "length (chunks s) = (totalLines s + chunkSize s - 1) div chunkSize s"
  shows "\<exists>s'. appendLoop c s idx pos rem = Some (Inr (), s')
        \<and> length (chunks s') = (totalLines s' + chunkSize s' - 1) div chunkSize s'"
  using assms
proof (induction rem arbitrary: s idx pos rule: length_induct)
  case (1 rem)
  let ?n = "chunkSize s" and ?t = "totalLines s"
  have n: "0 < ?n" by (rule "1.prems"(1))
  have len: "length (chunks s) = idx + (if pos = 0 then 0 else 1)"
    unfolding "1.prems"(2,3,4) by (rule ceil_div [OF n])
  have room: "pos < ?n"
    unfolding "1.prems"(3) using n by (rule mod_less_divisor)
  show ?case
  proof (cases "rem = []")
    case True
    then show ?thesis using "1.prems"(4) by (simp add: appendLoop_done)
  next
    case False
    note ne = False
    show ?thesis
    proof (cases "length rem \<le> ?n - pos")
      case True
      define s1 where "s1 = compressChunk c idx (linesOfChunk c s (int idx) @ rem)
        (s\<lparr>totalLines := ?t + length rem\<rparr>)"
      have "length (chunks s1) = idx + 1"
        using len by (simp add: s1_def length_compressChunk)
      moreover have "(?t + length rem + ?n - 1) div ?n = idx + 1"
        using ceil_fill [of ?n "length rem" ?t] n ne True "1.prems"(2,3) room by simp
      ultimately show ?thesis
        by (simp add: appendLoop_last [OF ne room True] s1_def)
    next
      case False
      define space where "space = ?n - pos"
      define s1 where "s1 = compressChunk c idx (linesOfChunk c s (int idx) @ take space rem)
        (s\<lparr>totalLines := ?t + space\<rparr>)"
      have step: "appendLoop c s idx pos rem = appendLoop c s1 (idx + 1) 0 (drop space rem)"
        unfolding s1_def space_def by (rule appendLoop_more [OF ne room False])
      have space: "0 < space" "space < length rem"
        using room False by (simp_all add: space_def)
      then have shorter: "length (drop space rem) < length rem"
        by simp
      have t1: "totalLines s1 = ?t + (?n - ?t mod ?n)" and n1: "chunkSize s1 = ?n"
        using "1.prems"(3) by (simp_all add: s1_def space_def)
      have l1: "length (chunks s1) = idx + 1"
        using len by (simp add: s1_def length_compressChunk)
      have d1: "idx + 1 = totalLines s1 div chunkSize s1"
        and m1: "0 = totalLines s1 mod chunkSize s1"
        unfolding t1 n1 using next_block [OF n, of ?t] "1.prems"(2) by simp_all
      have c1: "length (chunks s1) = (totalLines s1 + chunkSize s1 - 1) div chunkSize s1"
        using ceil_div [of "chunkSize s1" "totalLines s1"] n n1 d1 m1 l1 by simp
      have n1': "0 < chunkSize s1" using n n1 by simp
      from "1.IH" [rule_format, OF shorter n1' d1 m1 c1]
      show ?thesis
        unfolding step .
    qed
  qed
qed

text \<open>Every append returns and advances \<open>totalLines\<close> by the number of lines given,
  on either path.\<close>

lemma append_totalLines:
  assumes "0 < chunkSize s"
  shows "\<exists>s'. appendChunkedLines c ls skipRender s = Some (Inr (), s')
        \<and> totalLines s' = totalLines s + length ls"
proof (cases "int (totalLines s div chunkSize s) = currentChunkIndex s")
  case True
  define r where "r = int (chunkSize s) - int (length (buffer s))"
  define s1 where "s1 = s\<lparr>buffer := buffer s @ slice_to ls r,
      totalLines := totalLines s + length (slice_to ls r)\<rparr>"
  have "0 < chunkSize s1" using assms by (simp add: s1_def)
  from appendLoop_returns [OF this, of c "totalLines s div chunkSize s + 1" "slice_from ls r"]
  obtain s' where
    "appendLoop c s1 (totalLines s div chunkSize s + 1) 0 (slice_from ls r) = Some (Inr (), s')"
    and "totalLines s' = totalLines s1 + length (slice_from ls r)"
    by auto
  then show ?thesis
    using True slice_partition [of ls r]
    by (simp add: appendChunkedLines_def Let_def r_def s1_def render_def)
next
  case False
  have "totalLines s mod chunkSize s < chunkSize s" using assms by simp
  from appendLoop_returns [OF this, of c "totalLines s div chunkSize s" ls]
  obtain s' where
    "appendLoop c s (totalLines s div chunkSize s) (totalLines s mod chunkSize s) ls
      = Some (Inr (), s')"
    and "totalLines s' = totalLines s + length ls"
    by auto
  then show ?thesis
    using False by (simp add: appendChunkedLines_def Let_def render_def)
qed

text \<open>An append that does not take the path through the resident buffer keeps one
  chunk for every \<open>chunkSize\<close> lines begun.\<close>

lemma append_chunkCount_off_window:
  assumes "0 < chunkSize s"
    and "int (totalLines s div chunkSize s) \<noteq> currentChunkIndex s"
    and "chunkCount s = (totalLines s + chunkSize s - 1) div chunkSize s"
  shows "\<exists>s'. appendChunkedLines c ls skipRender s = Some (Inr (), s')
        \<and> chunkCount s' = (totalLines s' + chunkSize s' - 1) div chunkSize s'"
proof -
  from appendLoop_chunkCount [OF assms(1) refl refl, of c ls] assms(3)
  obtain s' where
    "appendLoop c s (totalLines s div chunkSize s) (totalLines s mod chunkSize s) ls
      = Some (Inr (), s')"
    and "length (chunks s') = (totalLines s' + chunkSize s' - 1) div chunkSize s'"
    by (auto simp: chunkCount_def)
  then show ?thesis
    using assms(2) by (simp add: appendChunkedLines_def Let_def render_def chunkCount_def)
qed

text \<open>
  C2: a line placed in the resident buffer is never written to the store. In the
  session of chunk size 4, two lines are appended (chunk 0 is stored with both), the
  window is loaded on chunk 0, and one more line is appended: the append takes the path
  through the resident buffer, which pushes the line onto \<open>buffer\<close> and counts it in
  \<open>totalLines\<close> with no call of \<open>compressChunk\<close>. Chunk 0 still decompresses to the
  first two lines, though it owns the lines 0 to 2 of the document.
\<close>

theorem C2_resident_lines_not_stored:
  "appendChunkedLines plain [str ''a'', str ''b''] True fresh4 = Some (Inr (), stored_ab)
   \<and> finish plain 0 (snd (getChunkedLines plain (rowsFrom 0 2) stored_ab)) = resident_ab
   \<and> appendChunkedLines plain [str ''c''] True resident_ab
       = Some (Inr (), resident_ab\<lparr>buffer := [str ''a'', str ''b'', str ''c''], totalLines := 3\<rparr>)
   \<and> chunkCount (resident_ab\<lparr>buffer := [str ''a'', str ''b'', str ''c''], totalLines := 3\<rparr>) = 1
   \<and> decompressChunk plain (resident_ab\<lparr>buffer := [str ''a'', str ''b'', str ''c''], totalLines := 3\<rparr>) 0
       = Inr [str ''a'', str ''b'']"
  by (simp add: scenario_defs step_defs)

text \<open>
  C4: the chunk count falls behind when the tail chunk is the resident one. In the
  session of chunk size 4 just activated, the viewer's first resolve makes chunk 0 the
  current chunk (its reload fails on the empty store). An append of five lines then
  puts the first four in \<open>buffer\<close> only and stores the fifth as the first chunk:
  \<open>totalLines\<close> is 5 and the chunk size 4, so two chunks are due, and the store has
  one, holding the fifth line.
\<close>

theorem C4_chunk_count_behind:
  "map_option
     (\<lambda>(r, s). (r, totalLines s, chunkSize s, chunkCount s, buffer s,
        map (decompress plain) (chunks s)))
     (appendChunkedLines plain [str ''a'', str ''b'', str ''c'', str ''d'', str ''e''] False (land plain 0 probed4))
   = Some (Inr (), 5, 4, 1, [str ''a'', str ''b'', str ''c'', str ''d''], [[str ''e'']])
   \<and> (5 + 4 - 1) div 4 = (2::nat)"
  by (simp add: scenario_defs step_defs)

section \<open>Properties of the interval after a cache miss\<close>






section \<open>Properties of the lifecycle\<close>

text \<open>
  C7: \<open>activate(size)\<close> fails exactly when the viewport's line count is at least
  \<open>size\<close>; the failure is the result of the call itself, it is the configuration error
  naming the two sizes, and it leaves the viewer (mode, model lines, installed line
  source) and the session (chunks, buffers, counters, chunk index) as they were.
\<close>

theorem C7_activate_guard:
  "((\<exists>e. fst (activate sz (v, s)) = Inl e) \<longleftrightarrow> sz \<le> vp_size (viewport v))
   \<and> (sz \<le> vp_size (viewport v) \<longrightarrow>
        activate sz (v, s) = (Inl (ViewportError (vp_size (viewport v)) sz), (v, s)))"
  by (simp add: activate_def)

text \<open>C7 on \<open>activate(5)\<close> with a viewport of 10 rows over a session that holds five
  lines, and on \<open>activate(50)\<close> there, which succeeds.\<close>

theorem C7_activate_guard_witness:
  "5 \<le> vp_size (viewport (idle_viewer 10))
   \<and> activate 5 (idle_viewer 10, loaded) = (Inl (ViewportError 10 5), (idle_viewer 10, loaded))
   \<and> enabled loaded \<and> totalLines loaded = 5
   \<and> fst (activate 50 (idle_viewer 10, loaded)) = Inr ()"
proof -
  have h: "5 \<le> vp_size (viewport (idle_viewer 10))"
    by (simp add: idle_viewer_def)
  have ok: "fst (activate 50 (idle_viewer 10, loaded)) = Inr ()"
    by (simp add: activate_def idle_viewer_def)
  have st: "enabled loaded" "totalLines loaded = 5"
    by (simp_all add: scenario_defs step_defs)
  show ?thesis
    using h ok st C7_activate_guard [of 5 "idle_viewer 10" loaded]
    by (simp add: idle_viewer_def)
qed

text \<open>
  C9: outside an active session \<open>appendLines\<close> returns the "not activated" error and
  the session it was called on, unchanged: no line is counted and no chunk is written.
\<close>

theorem C9_append_not_activated:
  "\<not> enabled s \<Longrightarrow> appendLines c ls skipRender s = Some (Inl NotActivatedError, s)"
  by (simp add: appendLines_def)

text \<open>C9 on the session before any activation, and on a deactivated one.\<close>

theorem C9_append_not_activated_witness:
  "\<not> enabled initial
   \<and> appendLines plain [str ''x'', str ''y''] False initial = Some (Inl NotActivatedError, initial)
   \<and> totalLines initial = 0 \<and> chunkCount initial = 0"
proof -
  have h: "\<not> enabled initial" by (simp add: initial_def)
  show ?thesis
    using h C9_append_not_activated [OF h, of plain "[str ''x'', str ''y'']" False]
    by (simp add: initial_def chunkCount_def)
qed

end
